theory Spec2Isabelle
  imports Main "HOL-Library.Word" "HOL-Library.Multiset"
begin

unbundle bit_operations_syntax

section \<open>makegpc.py: the GPC encoder\<close>

text \<open>
  A shallow embedding of \<^verbatim>\<open>src/ICON/PNG/makegpc.py\<close>. Bytes of a
  \<^verbatim>\<open>bytearray\<close> or \<^verbatim>\<open>memoryview\<close> are \<open>8 word\<close>; Python's integers are
  \<open>int\<close>, or \<open>nat\<close> where the source only counts upward from a non-negative start;
  every exception the interpreter can raise in the modelled code is a value of \<open>error\<close>
  and a function that can raise returns \<open>error + 'a\<close> (\<open>Inl\<close> the exception).
  Mutated buffers are passed in and returned.
\<close>

subsection \<open>Python primitives\<close>

type_synonym byte = "8 word"

datatype error = IndexError | ValueError | TypeError | KeyError | UnboundLocalError
  | SystemExit nat

text \<open>Sequencing of computations that may raise.\<close>

definition bindE :: "error + 'a \<Rightarrow> ('a \<Rightarrow> error + 'b) \<Rightarrow> error + 'b" where
  "bindE m f = (case m of Inl e \<Rightarrow> Inl e | Inr x \<Rightarrow> f x)"

lemma bindE_cong [fundef_cong]:
  "m = m' \<Longrightarrow> (\<And>x. m' = Inr x \<Longrightarrow> f x = f' x) \<Longrightarrow> bindE m f = bindE m' f'"
  by (cases m') (simp_all add: bindE_def)

text \<open>\<^verbatim>\<open>xs[i]\<close> and \<^verbatim>\<open>xs[i] = v\<close> for an index that is never negative.\<close>

definition list_get :: "'a list \<Rightarrow> nat \<Rightarrow> error + 'a" where
  "list_get xs i = (if i < length xs then Inr (xs ! i) else Inl IndexError)"

definition list_set :: "'a list \<Rightarrow> nat \<Rightarrow> 'a \<Rightarrow> error + 'a list" where
  "list_set xs i v = (if i < length xs then Inr (xs[i := v]) else Inl IndexError)"

text \<open>
  \<^verbatim>\<open>xs[i]\<close> and \<^verbatim>\<open>xs[i] = v\<close> for a Python integer index: a negative index
  counts from the end, anything outside \<open>-len .. len - 1\<close> raises IndexError.
\<close>

definition py_index :: "nat \<Rightarrow> int \<Rightarrow> error + nat" where
  "py_index n i =
     (if 0 \<le> i \<and> i < int n then Inr (nat i)
      else if - int n \<le> i \<and> i < 0 then Inr (nat (int n + i))
      else Inl IndexError)"

definition py_get :: "'a list \<Rightarrow> int \<Rightarrow> error + 'a" where
  "py_get xs i = bindE (py_index (length xs) i) (\<lambda>k. Inr (xs ! k))"

definition py_set :: "'a list \<Rightarrow> int \<Rightarrow> 'a \<Rightarrow> error + 'a list" where
  "py_set xs i v = bindE (py_index (length xs) i) (\<lambda>k. Inr (xs[k := v]))"

text \<open>Storing a Python integer into a bytearray: ValueError outside \<open>range(256)\<close>.\<close>

definition to_byte :: "int \<Rightarrow> error + byte" where
  "to_byte v = (if 0 \<le> v \<and> v < 256 then Inr (word_of_int v) else Inl ValueError)"

text \<open>\<^verbatim>\<open>xs[a:b]\<close> for \<open>0 \<le> a \<le> b\<close>: the bounds are clamped to the length.\<close>

definition slice :: "'a list \<Rightarrow> nat \<Rightarrow> nat \<Rightarrow> 'a list" where
  "slice xs a b = take (b - a) (drop a xs)"

text \<open>
  \<^verbatim>\<open>mv[a:b] = vs\<close> on a memoryview (\<open>0 \<le> a \<le> b\<close>): a memoryview cannot be
  resized, the assignment raises ValueError unless both sides have the same length.
\<close>

definition mv_set_slice :: "'a list \<Rightarrow> nat \<Rightarrow> nat \<Rightarrow> 'a list \<Rightarrow> error + 'a list" where
  "mv_set_slice mv a b vs =
     (if length (slice mv a b) = length vs then Inr (take a mv @ vs @ drop b mv)
      else Inl ValueError)"

text \<open>
  \<^verbatim>\<open>ba[a:b] = vs\<close> on a bytearray (\<open>0 \<le> a \<le> b\<close>): the slice is replaced, the
  bytearray grows or shrinks when the lengths differ.
\<close>

definition ba_set_slice :: "'a list \<Rightarrow> nat \<Rightarrow> nat \<Rightarrow> 'a list \<Rightarrow> 'a list" where
  "ba_set_slice ba a b vs = take a ba @ vs @ drop b ba"

text \<open>\<^verbatim>\<open>xs[i:]\<close> for a Python integer \<open>i\<close>.\<close>

definition py_slice_from :: "'a list \<Rightarrow> int \<Rightarrow> 'a list" where
  "py_slice_from xs i = (if i < 0 then drop (nat (int (length xs) + i)) xs else drop (nat i) xs)"

subsection \<open>MakeInterlaceTable\<close>

text \<open>\<^verbatim>\<open>hrz_steps = range(0x51)\<close>\<close>

definition hrz_steps :: "nat list" where
  "hrz_steps = [0..<0x51]"

text \<open>
  The inner loop \<^verbatim>\<open>while i < size: result[writeofs] = i; writeofs += 1; i += step\<close>.
  With \<open>step = 0\<close> and \<open>i < size\<close> the source would not leave it, so the loop is a
  partial function: not returning is \<open>None\<close>.
\<close>

partial_function (option) interlace_inner ::
  "nat \<Rightarrow> nat \<Rightarrow> nat \<Rightarrow> nat \<Rightarrow> nat option list \<Rightarrow> (error + nat \<times> nat option list) option"
where
  "interlace_inner step sz i writeofs result =
     (if i < sz then
        (if writeofs < length result
         then interlace_inner step sz (i + step) (writeofs + 1) (result[writeofs := Some i])
         else Some (Inl IndexError))
      else Some (Inr (writeofs, result)))"

declare interlace_inner.simps [code]

text \<open>The outer loop \<^verbatim>\<open>while start < step: i = start; ...; start += 1\<close>.\<close>

function interlace_outer ::
  "nat \<Rightarrow> nat \<Rightarrow> nat \<Rightarrow> nat \<Rightarrow> nat option list \<Rightarrow> (error + nat option list) option"
where
  "interlace_outer step sz start writeofs result =
     (if start < step then
        (case interlace_inner step sz start writeofs result of
           None \<Rightarrow> None
         | Some (Inl e) \<Rightarrow> Some (Inl e)
         | Some (Inr (writeofs', result')) \<Rightarrow>
             interlace_outer step sz (start + 1) writeofs' result')
      else Some (Inr result))"
  by pat_completeness auto
termination
  by (relation "measure (\<lambda>(step, sz, start, writeofs, result). step - start)") auto

declare interlace_outer.simps [simp del]

text \<open>
  \<^verbatim>\<open>for step in steps\<close>: step 0 is skipped, every other step stores a fresh
  \<^verbatim>\<open>[None] * size\<close> list filled by the two loops.
\<close>

fun MakeInterlaceTable_steps ::
  "nat \<Rightarrow> nat list \<Rightarrow> (nat \<rightharpoonup> nat option list) \<Rightarrow> (error + (nat \<rightharpoonup> nat option list)) option"
where
  "MakeInterlaceTable_steps sz [] table = Some (Inr table)"
| "MakeInterlaceTable_steps sz (step # steps) table =
     (if step = 0 then MakeInterlaceTable_steps sz steps table
      else
        (case interlace_outer step sz 0 0 (replicate sz None) of
           None \<Rightarrow> None
         | Some (Inl e) \<Rightarrow> Some (Inl e)
         | Some (Inr result) \<Rightarrow> MakeInterlaceTable_steps sz steps (table(step \<mapsto> result))))"

definition MakeInterlaceTable ::
  "nat \<Rightarrow> nat list \<Rightarrow> (error + (nat \<rightharpoonup> nat option list)) option" where
  "MakeInterlaceTable sz steps = MakeInterlaceTable_steps sz steps Map.empty"

text \<open>
  The permutation the loops compute, in closed form: the indices below \<open>size\<close> grouped
  by residue modulo \<open>step\<close>, residues ascending, ascending within each residue.
\<close>

definition residue_class :: "nat \<Rightarrow> nat \<Rightarrow> nat \<Rightarrow> nat list" where
  "residue_class sz step r = filter (\<lambda>i. i mod step = r) [0..<sz]"

definition interlace :: "nat \<Rightarrow> nat \<Rightarrow> nat list" where
  "interlace sz step = concat (map (residue_class sz step) [0..<step])"

subsection \<open>Encode\<close>

text \<open>
  \<^verbatim>\<open>mv[i] = v\<close> for Python integers \<open>i\<close> and \<open>v\<close>: the index is resolved first
  (IndexError), then the value is packed into a byte (ValueError).
\<close>

definition mv_store :: "byte list \<Rightarrow> int \<Rightarrow> int \<Rightarrow> error + byte list" where
  "mv_store mv i v =
     bindE (py_index (length mv) i) (\<lambda>k. bindE (to_byte v) (\<lambda>b. Inr (mv[k := b])))"

text \<open>
  Lines 136-142, after \<^verbatim>\<open>flagB >>= 1; readofs -= 1\<close>: a non-zero byte is written
  as a literal and sets the top bit of flag B. Returns \<open>(flagB, writeofs, finalview)\<close>.
\<close>

definition Encode_literal ::
  "byte list \<Rightarrow> nat \<Rightarrow> int \<Rightarrow> int \<Rightarrow> byte list \<Rightarrow> error + int \<times> int \<times> byte list" where
  "Encode_literal workview readofs flagB writeofs finalview =
     bindE (list_get workview readofs) (\<lambda>b.
       if b \<noteq> 0 then
         bindE (py_set finalview (writeofs - 1) b) (\<lambda>finalview'.
           Inr (flagB OR 0x80, writeofs - 1, finalview'))
       else Inr (flagB, writeofs, finalview))"

text \<open>
  Lines 143-156: the two counters. When flag B is complete it is written if non-zero and
  shifted into flag A; when flag A is complete it is written, zero or not. Returns
  \<open>(flagA, writeofs, flagAbitsleft, flagBbitsleft, finalview)\<close>.
\<close>

definition Encode_flags ::
  "int \<Rightarrow> int \<Rightarrow> int \<Rightarrow> int \<Rightarrow> int \<Rightarrow> byte list \<Rightarrow>
   error + int \<times> int \<times> int \<times> int \<times> byte list" where
  "Encode_flags flagA flagB writeofs flagAbitsleft flagBbitsleft finalview =
     (if flagBbitsleft - 1 = 0 then
        bindE
          (if flagB \<noteq> 0 then
             bindE (mv_store finalview (writeofs - 1) flagB) (\<lambda>finalview'.
               Inr (drop_bit 1 flagA OR 0x80, writeofs - 1, finalview'))
           else Inr (drop_bit 1 flagA, writeofs, finalview))
          (\<lambda>(flagA', writeofs', finalview').
             if flagAbitsleft - 1 = 0 then
               bindE (mv_store finalview' (writeofs' - 1) flagA') (\<lambda>finalview''.
                 Inr (flagA', writeofs' - 1, 8, 8, finalview''))
             else Inr (flagA', writeofs', flagAbitsleft - 1, 8, finalview'))
      else Inr (flagA, writeofs, flagAbitsleft, flagBbitsleft - 1, finalview))"

text \<open>The loop \<^verbatim>\<open>while readofs != 0\<close>; \<open>readofs\<close> counts down to 0.\<close>

fun Encode_loop ::
  "byte list \<Rightarrow> nat \<Rightarrow> int \<Rightarrow> int \<Rightarrow> int \<Rightarrow> int \<Rightarrow> int \<Rightarrow> byte list \<Rightarrow> error + int \<times> byte list"
where
  "Encode_loop workview 0 flagA flagB writeofs flagAbitsleft flagBbitsleft finalview =
     Inr (writeofs, finalview)"
| "Encode_loop workview (Suc readofs) flagA flagB writeofs flagAbitsleft flagBbitsleft finalview =
     bindE (Encode_literal workview readofs (drop_bit 1 flagB) writeofs finalview)
       (\<lambda>(flagB', writeofs', finalview').
          bindE (Encode_flags flagA flagB' writeofs' flagAbitsleft flagBbitsleft finalview')
            (\<lambda>(flagA', writeofs'', flagAbitsleft', flagBbitsleft', finalview'').
               Encode_loop workview readofs flagA' flagB' writeofs'' flagAbitsleft' flagBbitsleft'
                 finalview''))"

text \<open>
  Encode returns the offset \<open>writeofs\<close>; the destination it wrote into is returned with
  it.
\<close>

definition Encode :: "byte list \<Rightarrow> byte list \<Rightarrow> error + int \<times> byte list" where
  "Encode workview finalview =
     (let readofs = length workview;
          writeofs = int (length finalview);
          flagAbitsleft = drop_bit 3 (int readofs + 7) AND 7;
          flagAbitsleft = (if flagAbitsleft = 0 then 8 else flagAbitsleft);
          flagBbitsleft = int readofs AND 7;
          flagBbitsleft = (if flagBbitsleft = 0 then 8 else flagBbitsleft)
      in Encode_loop workview readofs 0 0 writeofs flagAbitsleft flagBbitsleft finalview)"

text \<open>
  The number of flag A bytes the loop writes while it reads \<open>r\<close> more bytes, entered
  with \<open>flagAbitsleft = a\<close> and \<open>flagBbitsleft = b\<close>: flag B completes after \<open>b\<close>
  bytes and then every 8, flag A after \<open>a\<close> completed flag B groups and then every 8.
\<close>

definition flagA_count :: "nat \<Rightarrow> nat \<Rightarrow> nat \<Rightarrow> nat" where
  "flagA_count r a b = ((r + 8 - b) div 8 + 8 - a) div 8"

subsection \<open>VerticalIX\<close>

text \<open>
  Lines 56-59, \<^verbatim>\<open>for row in vrt_list\<close>: the source row \<open>row\<close> is copied behind the
  leading byte of the next row of the work buffer. An entry of the table that was never
  filled is \<open>None\<close> and makes \<^verbatim>\<open>row * stride\<close> a TypeError. Returns
  \<open>(writeofs, workview)\<close>.
\<close>

fun VerticalIX_copy ::
  "byte list \<Rightarrow> nat \<Rightarrow> nat option list \<Rightarrow> nat \<Rightarrow> byte list \<Rightarrow> error + nat \<times> byte list"
where
  "VerticalIX_copy srcview stride [] writeofs workview = Inr (writeofs, workview)"
| "VerticalIX_copy srcview stride (row # vrt_list) writeofs workview =
     (case row of
        None \<Rightarrow> Inl TypeError
      | Some r \<Rightarrow>
          (let readofs = r * stride in
           bindE (mv_set_slice workview writeofs (writeofs + stride)
                    (slice srcview readofs (readofs + stride)))
             (\<lambda>workview'.
                VerticalIX_copy srcview stride vrt_list (writeofs + stride + 1) workview')))"

text \<open>
  Lines 64-66, \<^verbatim>\<open>for i in range(...)\<close> with the number of iterations left as the
  second argument: \<^verbatim>\<open>writeofs -= 1; workview[writeofs] ^= workview[writeofs - stride - 1]\<close>.
\<close>

fun VerticalIX_xor :: "nat \<Rightarrow> nat \<Rightarrow> int \<Rightarrow> byte list \<Rightarrow> error + byte list" where
  "VerticalIX_xor stride 0 writeofs workview = Inr workview"
| "VerticalIX_xor stride (Suc n) writeofs workview =
     bindE (py_get workview (writeofs - 1)) (\<lambda>a.
       bindE (py_get workview (writeofs - 1 - int stride - 1)) (\<lambda>b.
         bindE (py_set workview (writeofs - 1) (a XOR b)) (\<lambda>workview'.
           VerticalIX_xor stride n (writeofs - 1) workview')))"

text \<open>
  VerticalIX mutates \<open>workview\<close>, which is returned. For \<open>h = 0\<close> the range
  \<^verbatim>\<open>range((stride + 1) * (h - 1))\<close> has a negative bound and is empty, as is the
  product over \<open>nat\<close>, where \<open>0 - 1 = 0\<close>.
\<close>

definition VerticalIX ::
  "byte list \<Rightarrow> byte list \<Rightarrow> nat \<Rightarrow> nat \<Rightarrow> nat option list \<Rightarrow> error + byte list" where
  "VerticalIX srcview workview w h vrt_list =
     (let stride = drop_bit 1 w in
      bindE (VerticalIX_copy srcview stride vrt_list 1 workview) (\<lambda>(writeofs, workview').
        if h = 1 then Inr workview'
        else VerticalIX_xor stride ((stride + 1) * (h - 1)) (int writeofs - 1) workview'))"

subsection \<open>HorizontalIX\<close>

text \<open>
  Lines 81-84, \<^verbatim>\<open>for x in range(stride)\<close> for one step \<open>hrz\<close>: the byte at the
  permuted position \<open>lookup[x]\<close> is XORed with the byte read in the previous iteration
  and stored in \<open>rowbuf[hrz]\<close> at the same position (plus the leading byte).
\<close>

fun hrz_fill ::
  "byte list \<Rightarrow> nat \<Rightarrow> nat option list \<Rightarrow> nat \<Rightarrow> nat list \<Rightarrow> byte \<Rightarrow> (nat \<rightharpoonup> byte list) \<Rightarrow>
   error + (nat \<rightharpoonup> byte list)"
where
  "hrz_fill workview rowstart lookup hrz [] lastbyte rowbuf = Inr rowbuf"
| "hrz_fill workview rowstart lookup hrz (x # xs) lastbyte rowbuf =
     bindE (list_get lookup x) (\<lambda>l.
       case l of
         None \<Rightarrow> Inl TypeError
       | Some lx \<Rightarrow>
           bindE (list_get workview (rowstart + lx)) (\<lambda>nextbyte.
             case rowbuf hrz of
               None \<Rightarrow> Inl KeyError
             | Some row \<Rightarrow>
                 bindE (list_set row (lx + 1) (lastbyte XOR nextbyte)) (\<lambda>row'.
                   hrz_fill workview rowstart lookup hrz xs nextbyte (rowbuf(hrz \<mapsto> row')))))"

text \<open>Lines 77-84, \<^verbatim>\<open>for hrz in hrz_steps\<close>: step 0 is skipped.\<close>

fun hrz_fill_steps ::
  "byte list \<Rightarrow> nat \<Rightarrow> nat \<Rightarrow> (nat \<rightharpoonup> nat option list) \<Rightarrow> nat list \<Rightarrow> (nat \<rightharpoonup> byte list) \<Rightarrow>
   error + (nat \<rightharpoonup> byte list)"
where
  "hrz_fill_steps workview rowstart stride hrz_lookup [] rowbuf = Inr rowbuf"
| "hrz_fill_steps workview rowstart stride hrz_lookup (hrz # hrzs) rowbuf =
     (if hrz = 0 then hrz_fill_steps workview rowstart stride hrz_lookup hrzs rowbuf
      else
        (case hrz_lookup hrz of
           None \<Rightarrow> Inl KeyError
         | Some lookup \<Rightarrow>
             bindE (hrz_fill workview rowstart lookup hrz [0..<stride] 0 rowbuf) (\<lambda>rowbuf'.
               hrz_fill_steps workview rowstart stride hrz_lookup hrzs rowbuf')))"

text \<open>
  Lines 76-84: the candidates of one row. \<open>rowbuf[0]\<close> receives the payload unchanged
  (a slice assignment on a bytearray), then every other step is filled.
\<close>

definition hrz_candidates ::
  "byte list \<Rightarrow> nat \<Rightarrow> nat \<Rightarrow> (nat \<rightharpoonup> nat option list) \<Rightarrow> (nat \<rightharpoonup> byte list) \<Rightarrow>
   error + (nat \<rightharpoonup> byte list)" where
  "hrz_candidates workview rowstart stride hrz_lookup rowbuf =
     (case rowbuf 0 of
        None \<Rightarrow> Inl KeyError
      | Some row0 \<Rightarrow>
          hrz_fill_steps workview rowstart stride hrz_lookup hrz_steps
            (rowbuf(0 \<mapsto> ba_set_slice row0 1 (1 + stride)
                             (slice workview rowstart (rowstart + stride)))))"

text \<open>
  Lines 96-105, the body of \<^verbatim>\<open>for x in range(stride + 1)\<close> for a byte \<open>b = row[x]\<close>,
  on the state \<open>(nullrun, bits, align)\<close>.
\<close>

definition bits_step :: "byte \<Rightarrow> nat \<times> int \<times> nat \<Rightarrow> nat \<times> int \<times> nat" where
  "bits_step b = (\<lambda>(nullrun, bits, align).
     (let (bits', nullrun') =
            (if b \<noteq> 0 then (bits + 8, 0)
             else (let nullrun' = (nullrun + 1) AND 7
                   in (if nullrun' = 0 then bits - 8 else bits, nullrun')));
          align' = (align + 1) AND 7;
          nullrun'' = (if align' = 0 then 0 else nullrun')
      in (nullrun'', bits', align')))"

fun row_bits_loop :: "byte list \<Rightarrow> nat list \<Rightarrow> nat \<times> int \<times> nat \<Rightarrow> error + int" where
  "row_bits_loop row [] (nullrun, bits, align) = Inr bits"
| "row_bits_loop row (x # xs) st =
     bindE (list_get row x) (\<lambda>b. row_bits_loop row xs (bits_step b st))"

text \<open>
  Lines 90-105: the estimate for one candidate, \<^verbatim>\<open>nullrun = 0; bits = 0; align = rowstart\<close>.
\<close>

definition row_bits :: "nat \<Rightarrow> nat \<Rightarrow> byte list \<Rightarrow> error + int" where
  "row_bits stride rowstart row = row_bits_loop row [0..<stride + 1] (0, 0, rowstart)"

text \<open>
  Lines 89-108, \<^verbatim>\<open>for hrz in hrz_steps\<close>: \<open>besthrz\<close> is \<open>None\<close> while the variable
  is unbound. Returns \<open>(bestbits, besthrz)\<close>.
\<close>

fun hrz_select ::
  "(nat \<rightharpoonup> byte list) \<Rightarrow> nat \<Rightarrow> nat \<Rightarrow> nat list \<Rightarrow> int \<Rightarrow> nat option \<Rightarrow> error + int \<times> nat option"
where
  "hrz_select rowbuf stride rowstart [] bestbits besthrz = Inr (bestbits, besthrz)"
| "hrz_select rowbuf stride rowstart (hrz # hrzs) bestbits besthrz =
     (case rowbuf hrz of
        None \<Rightarrow> Inl KeyError
      | Some row \<Rightarrow>
          bindE (row_bits stride rowstart row) (\<lambda>bits.
            if bits < bestbits then hrz_select rowbuf stride rowstart hrzs bits (Some hrz)
            else hrz_select rowbuf stride rowstart hrzs bestbits besthrz))"

text \<open>
  Lines 75-113, the body of \<^verbatim>\<open>for y in range(h)\<close>, without the final
  \<^verbatim>\<open>rowstart += stride + 1\<close>. \<open>besthrz\<close> is a local of HorizontalIX and survives from
  one row to the next. \<open>rowstart\<close> starts at 1 and only grows, so \<open>rowstart - 1\<close> is
  never negative. Returns \<open>(workview, rowbuf, besthrz)\<close>.
\<close>

definition HorizontalIX_row ::
  "byte list \<Rightarrow> (nat \<rightharpoonup> byte list) \<Rightarrow> nat \<Rightarrow> (nat \<rightharpoonup> nat option list) \<Rightarrow> nat \<Rightarrow> nat option \<Rightarrow>
   error + byte list \<times> (nat \<rightharpoonup> byte list) \<times> nat option" where
  "HorizontalIX_row workview rowbuf stride hrz_lookup rowstart besthrz =
     bindE (hrz_candidates workview rowstart stride hrz_lookup rowbuf) (\<lambda>rowbuf'.
       bindE (hrz_select rowbuf' stride rowstart hrz_steps 0xFFFF besthrz) (\<lambda>(bestbits, besthrz').
         case besthrz' of
           None \<Rightarrow> Inl UnboundLocalError
         | Some best \<Rightarrow>
             (case rowbuf' best of
                None \<Rightarrow> Inl KeyError
              | Some row \<Rightarrow>
                  bindE (mv_set_slice workview (rowstart - 1) (rowstart + stride) row)
                    (\<lambda>workview'. Inr (workview', rowbuf', besthrz')))))"

fun HorizontalIX_rows ::
  "nat \<Rightarrow> (nat \<rightharpoonup> nat option list) \<Rightarrow> nat \<Rightarrow> nat \<Rightarrow> nat option \<Rightarrow> byte list \<Rightarrow> (nat \<rightharpoonup> byte list) \<Rightarrow>
   error + byte list \<times> (nat \<rightharpoonup> byte list)"
where
  "HorizontalIX_rows stride hrz_lookup 0 rowstart besthrz workview rowbuf = Inr (workview, rowbuf)"
| "HorizontalIX_rows stride hrz_lookup (Suc n) rowstart besthrz workview rowbuf =
     bindE (HorizontalIX_row workview rowbuf stride hrz_lookup rowstart besthrz)
       (\<lambda>(workview', rowbuf', besthrz').
          HorizontalIX_rows stride hrz_lookup n (rowstart + stride + 1) besthrz' workview' rowbuf')"

text \<open>HorizontalIX mutates \<open>workview\<close> and the bytearrays of \<open>rowbuf\<close>; both are returned.\<close>

definition HorizontalIX ::
  "byte list \<Rightarrow> (nat \<rightharpoonup> byte list) \<Rightarrow> nat \<Rightarrow> nat \<Rightarrow> (nat \<rightharpoonup> nat option list) \<Rightarrow>
   error + byte list \<times> (nat \<rightharpoonup> byte list)" where
  "HorizontalIX workview rowbuf w h hrz_lookup =
     HorizontalIX_rows (drop_bit 1 w) hrz_lookup h 1 None workview rowbuf"

subsection \<open>Compress\<close>

text \<open>
  Lines 165-167: \<^verbatim>\<open>rowbuf[hrz] = bytearray(stride + 1); rowbuf[hrz][0] = hrz\<close> for
  every step.
\<close>

fun rowbuf_init :: "nat \<Rightarrow> nat list \<Rightarrow> (nat \<rightharpoonup> byte list) \<Rightarrow> error + (nat \<rightharpoonup> byte list)" where
  "rowbuf_init stride [] rowbuf = Inr rowbuf"
| "rowbuf_init stride (hrz # hrzs) rowbuf =
     bindE (mv_store (replicate (stride + 1) 0) 0 (int hrz)) (\<lambda>row.
       rowbuf_init stride hrzs (rowbuf(hrz \<mapsto> row)))"

text \<open>
  Lines 177-179, one vertical-step trial on the buffers \<open>(workbuf, rowbuf, finalbuf)\<close>.
  Returns \<open>writeofs\<close> and the three buffers as the trial leaves them.
\<close>

definition Compress_trial ::
  "byte list \<Rightarrow> nat \<Rightarrow> nat \<Rightarrow> (nat \<rightharpoonup> nat option list) \<Rightarrow> (nat \<rightharpoonup> nat option list) \<Rightarrow> nat \<Rightarrow>
   byte list \<times> (nat \<rightharpoonup> byte list) \<times> byte list \<Rightarrow>
   error + int \<times> byte list \<times> (nat \<rightharpoonup> byte list) \<times> byte list" where
  "Compress_trial srcview w h vrt_lookup hrz_lookup vrt = (\<lambda>(workbuf, rowbuf, finalbuf).
     case vrt_lookup vrt of
       None \<Rightarrow> Inl KeyError
     | Some vrt_list \<Rightarrow>
         bindE (VerticalIX srcview workbuf w h vrt_list) (\<lambda>workbuf'.
           bindE (HorizontalIX workbuf' rowbuf w h hrz_lookup) (\<lambda>(workbuf'', rowbuf').
             bindE (Encode workbuf'' finalbuf) (\<lambda>(writeofs, finalbuf').
               Inr (writeofs, workbuf'', rowbuf', finalbuf')))))"

text \<open>
  Lines 175-183, \<^verbatim>\<open>for vrt in [2, 1, 4]\<close>: the three buffers are the ones the
  previous trial left. \<open>best\<close> is \<open>(bestbuf, bestvrt)\<close>, \<open>None\<close> while both are
  unbound; \<^verbatim>\<open>finalbuf[writeofs:]\<close> is a copy.
\<close>

fun Compress_trials ::
  "byte list \<Rightarrow> nat \<Rightarrow> nat \<Rightarrow> (nat \<rightharpoonup> nat option list) \<Rightarrow> (nat \<rightharpoonup> nat option list) \<Rightarrow> nat list \<Rightarrow>
   byte list \<times> (nat \<rightharpoonup> byte list) \<times> byte list \<Rightarrow> int \<Rightarrow> (byte list \<times> nat) option \<Rightarrow>
   error + (byte list \<times> nat) option"
where
  "Compress_trials srcview w h vrt_lookup hrz_lookup [] bufs bestofs best = Inr best"
| "Compress_trials srcview w h vrt_lookup hrz_lookup (vrt # vrts) bufs bestofs best =
     bindE (Compress_trial srcview w h vrt_lookup hrz_lookup vrt bufs)
       (\<lambda>(writeofs, workbuf', rowbuf', finalbuf').
          if writeofs > bestofs
          then Compress_trials srcview w h vrt_lookup hrz_lookup vrts (workbuf', rowbuf', finalbuf')
                 writeofs (Some (py_slice_from finalbuf' writeofs, vrt))
          else Compress_trials srcview w h vrt_lookup hrz_lookup vrts (workbuf', rowbuf', finalbuf')
                 bestofs best)"

text \<open>
  Compress returns \<open>(bestbuf, bestvrt)\<close>; \<^verbatim>\<open>return bestbuf, bestvrt\<close> raises
  UnboundLocalError when no trial had \<open>writeofs > 0\<close>. The outer \<open>option\<close> is
  MakeInterlaceTable's.
\<close>

definition Compress :: "byte list \<Rightarrow> nat \<Rightarrow> nat \<Rightarrow> (error + byte list \<times> nat) option" where
  "Compress srcbuf w h =
     (let stride = drop_bit 1 w in
      case MakeInterlaceTable stride hrz_steps of
        None \<Rightarrow> None
      | Some (Inl e) \<Rightarrow> Some (Inl e)
      | Some (Inr hrz_lookup) \<Rightarrow>
          (case MakeInterlaceTable h [1, 2, 4] of
             None \<Rightarrow> None
           | Some (Inl e) \<Rightarrow> Some (Inl e)
           | Some (Inr vrt_lookup) \<Rightarrow>
               Some (bindE (rowbuf_init stride hrz_steps Map.empty) (\<lambda>rowbuf.
                 let workbuf = replicate ((stride + 1) * h) 0;
                     finalbuf = replicate (length workbuf * 8 div 7) 0
                 in bindE (Compress_trials srcbuf w h vrt_lookup hrz_lookup [2, 1, 4]
                             (workbuf, rowbuf, finalbuf) 0 None)
                      (\<lambda>best. case best of
                                 None \<Rightarrow> Inl UnboundLocalError
                               | Some r \<Rightarrow> Inr r)))))"

text \<open>
  The reference the claim about buffer reuse compares with: the same three trials, each
  on buffers allocated afresh as lines 164-172 allocate them.
\<close>

fun Compress_trials_fresh ::
  "byte list \<Rightarrow> nat \<Rightarrow> nat \<Rightarrow> (nat \<rightharpoonup> nat option list) \<Rightarrow> (nat \<rightharpoonup> nat option list) \<Rightarrow> nat list \<Rightarrow>
   int \<Rightarrow> (byte list \<times> nat) option \<Rightarrow> error + (byte list \<times> nat) option"
where
  "Compress_trials_fresh srcview w h vrt_lookup hrz_lookup [] bestofs best = Inr best"
| "Compress_trials_fresh srcview w h vrt_lookup hrz_lookup (vrt # vrts) bestofs best =
     bindE (rowbuf_init (drop_bit 1 w) hrz_steps Map.empty) (\<lambda>rowbuf.
       let workbuf = replicate ((drop_bit 1 w + 1) * h) 0;
           finalbuf = replicate (length workbuf * 8 div 7) 0
       in bindE (Compress_trial srcview w h vrt_lookup hrz_lookup vrt (workbuf, rowbuf, finalbuf))
            (\<lambda>(writeofs, workbuf', rowbuf', finalbuf').
               if writeofs > bestofs
               then Compress_trials_fresh srcview w h vrt_lookup hrz_lookup vrts writeofs
                      (Some (py_slice_from finalbuf' writeofs, vrt))
               else Compress_trials_fresh srcview w h vrt_lookup hrz_lookup vrts bestofs best))"

definition Compress_fresh :: "byte list \<Rightarrow> nat \<Rightarrow> nat \<Rightarrow> (error + byte list \<times> nat) option" where
  "Compress_fresh srcbuf w h =
     (let stride = drop_bit 1 w in
      case MakeInterlaceTable stride hrz_steps of
        None \<Rightarrow> None
      | Some (Inl e) \<Rightarrow> Some (Inl e)
      | Some (Inr hrz_lookup) \<Rightarrow>
          (case MakeInterlaceTable h [1, 2, 4] of
             None \<Rightarrow> None
           | Some (Inl e) \<Rightarrow> Some (Inl e)
           | Some (Inr vrt_lookup) \<Rightarrow>
               Some (bindE (Compress_trials_fresh srcbuf w h vrt_lookup hrz_lookup [2, 1, 4] 0 None)
                      (\<lambda>best. case best of
                                 None \<Rightarrow> Inl UnboundLocalError
                               | Some r \<Rightarrow> Inr r))))"

subsection \<open>Closed forms used in the proofs\<close>

text \<open>
  What lines 79-84 store for a payload \<open>pl\<close> and a permutation \<open>p\<close>, as a function on
  lists: every position \<open>q\<close> of \<open>p\<close>, in order, receives the payload byte at \<open>q\<close> XORed
  with the payload byte of the position before it in \<open>p\<close> (with \<open>lastbyte\<close> for the first).
\<close>

primrec delta_writes :: "byte list \<Rightarrow> nat list \<Rightarrow> byte \<Rightarrow> byte list \<Rightarrow> byte list" where
  "delta_writes pl [] lastbyte row = row"
| "delta_writes pl (q # qs) lastbyte row = delta_writes pl qs (pl ! q) (row[q + 1 := lastbyte XOR pl ! q])"

text \<open>
  The candidate of step \<open>s\<close> for a payload \<open>pl\<close>: the marker byte \<open>s\<close>, then the payload
  itself for step 0 and the payload filtered along the step's permutation otherwise.
\<close>

definition candidate :: "nat \<Rightarrow> byte list \<Rightarrow> byte list" where
  "candidate s pl =
     (if s = 0 then 0 # pl
      else delta_writes pl (interlace (length pl) s) 0 (of_nat s # replicate (length pl) 0))"

text \<open>The table MakeInterlaceTable returns for a size and a list of steps.\<close>

definition interlace_table :: "nat \<Rightarrow> nat list \<Rightarrow> (nat \<rightharpoonup> nat option list)" where
  "interlace_table sz steps =
     (\<lambda>s. if s \<in> set steps \<and> s \<noteq> 0 then Some (map Some (interlace sz s)) else None)"

text \<open>
  The invariant of \<open>rowbuf\<close> from line 167 on: every step has a bytearray of
  \<open>stride + 1\<close> bytes whose leading byte is the step.
\<close>

definition rowbuf_ok :: "nat \<Rightarrow> (nat \<rightharpoonup> byte list) \<Rightarrow> bool" where
  "rowbuf_ok stride rowbuf \<longleftrightarrow>
     (\<forall>s \<in> set hrz_steps. \<exists>row. rowbuf s = Some row \<and> length row = stride + 1 \<and> row ! 0 = of_nat s)"

text \<open>The estimate of lines 92-105 for a whole row, as a fold.\<close>

definition cost :: "nat \<Rightarrow> byte list \<Rightarrow> int" where
  "cost rowstart row = fst (snd (fold bits_step row (0, 0, rowstart)))"

text \<open>The comparison of lines 106-108 over a list of \<open>(step, bits)\<close> pairs.\<close>

fun select_best :: "(nat \<times> int) list \<Rightarrow> int \<Rightarrow> nat option \<Rightarrow> int \<times> nat option" where
  "select_best [] bestbits besthrz = (bestbits, besthrz)"
| "select_best ((hrz, bits) # cs) bestbits besthrz =
     (if bits < bestbits then select_best cs bits (Some hrz) else select_best cs bestbits besthrz)"

text \<open>The step lines 87-108 leave in \<open>besthrz\<close> for a row with payload \<open>pl\<close>.\<close>

definition best_step :: "nat \<Rightarrow> byte list \<Rightarrow> nat option \<Rightarrow> nat option" where
  "best_step rowstart pl besthrz =
     snd (select_best (map (\<lambda>s. (s, cost rowstart (candidate s pl))) hrz_steps) 0xFFFF besthrz)"

text \<open>
  What HorizontalIX leaves in \<open>workview\<close>, for \<open>n\<close> rows from \<open>rowstart\<close> on, without
  \<open>rowbuf\<close>: each row is replaced by its best candidate.
\<close>

fun hrz_pass :: "nat \<Rightarrow> nat \<Rightarrow> nat \<Rightarrow> nat option \<Rightarrow> byte list \<Rightarrow> error + byte list" where
  "hrz_pass stride 0 rowstart besthrz workview = Inr workview"
| "hrz_pass stride (Suc n) rowstart besthrz workview =
     (let pl = slice workview rowstart (rowstart + stride) in
      case best_step rowstart pl besthrz of
        None \<Rightarrow> Inl UnboundLocalError
      | Some best \<Rightarrow>
          hrz_pass stride n (rowstart + stride + 1) (Some best)
            (take (rowstart - 1) workview @ candidate best pl @ drop (rowstart + stride) workview))"

text \<open>
  What the copy loop of VerticalIX leaves in \<open>workview\<close> when no slice assignment
  raises, and what the XOR loop makes of a buffer: every byte from the second row on is
  XORed with the byte one row earlier of the buffer as it was before the loop.
\<close>

fun copy_rows :: "byte list \<Rightarrow> nat \<Rightarrow> nat list \<Rightarrow> nat \<Rightarrow> byte list \<Rightarrow> byte list" where
  "copy_rows srcview stride [] writeofs workview = workview"
| "copy_rows srcview stride (r # rows) writeofs workview =
     copy_rows srcview stride rows (writeofs + stride + 1)
       (take writeofs workview @ slice srcview (r * stride) (r * stride + stride) @
        drop (writeofs + stride) workview)"

definition xor_rows :: "nat \<Rightarrow> byte list \<Rightarrow> byte list" where
  "xor_rows stride w =
     map (\<lambda>i. if stride + 1 \<le> i then w ! i XOR w ! (i - (stride + 1)) else w ! i) [0..<length w]"

text \<open>
  Two destination buffers of length \<open>n\<close> that hold the same bytes from offset \<open>writeofs\<close>
  on (everywhere, once \<open>writeofs\<close> is negative).
\<close>

definition agree_from :: "nat \<Rightarrow> int \<Rightarrow> byte list \<Rightarrow> byte list \<Rightarrow> bool" where
  "agree_from n writeofs f1 f2 \<longleftrightarrow>
     length f1 = n \<and> length f2 = n \<and> (\<forall>k < n. writeofs \<le> int k \<longrightarrow> f1 ! k = f2 ! k)"

text \<open>
  The work buffer one trial hands to Encode, computed from the plane buffer alone: the
  vertical transform of a zeroed work buffer, then the horizontal search.
\<close>

definition trial_work :: "byte list \<Rightarrow> nat \<Rightarrow> nat \<Rightarrow> nat \<Rightarrow> error + byte list" where
  "trial_work srcview stride h vrt =
     (if \<forall>r \<in> set (interlace h vrt). r * stride + stride \<le> length srcview
      then hrz_pass stride h 1 None
             (xor_rows stride
               (copy_rows srcview stride (interlace h vrt) 1 (replicate (h * (stride + 1)) 0)))
      else Inl ValueError)"

subsection \<open>The specification's reading of the filters\<close>

text \<open>
  The row candidate as the specification words it (section 4.4, step 1): the payload is
  permuted by the step's permutation, then filtered forward, the first permuted byte
  unfiltered and each later byte XORed with the previous already-filtered value; the
  header byte is the step.
\<close>

fun spec_forward_filter :: "byte \<Rightarrow> byte list \<Rightarrow> byte list" where
  "spec_forward_filter prev [] = []"
| "spec_forward_filter prev (b # bs) = (prev XOR b) # spec_forward_filter (prev XOR b) bs"

definition spec_RowCandidate :: "nat \<Rightarrow> nat list \<Rightarrow> byte list \<Rightarrow> byte list" where
  "spec_RowCandidate s perm payload =
     of_nat s # spec_forward_filter 0 (map (\<lambda>i. payload ! i) perm)"

text \<open>The \<open>rowbuf\<close> that lines 164-167 of Compress build.\<close>

definition fresh_rowbuf :: "nat \<Rightarrow> (nat \<rightharpoonup> byte list)" where
  "fresh_rowbuf stride =
     (\<lambda>s. if s \<in> set hrz_steps then Some (of_nat s # replicate stride 0) else None)"

section \<open>Properties\<close>

subsection \<open>The interlace tables in closed form\<close>

lemma filter_upt_skip:
  assumes "a \<le> b" and "\<And>j. a \<le> j \<Longrightarrow> j < b \<Longrightarrow> \<not> P j"
  shows "filter P [a..<c] = filter P [b..<c]"
proof (cases "b \<le> c")
  case True
  have "[a..<c] = [a..<b] @ [b..<c]"
    using assms(1) True by (metis le_Suc_ex upt_add_eq_append)
  moreover have "filter P [a..<b] = []"
    using assms(2) by (simp add: filter_empty_conv)
  ultimately show ?thesis by simp
next
  case False
  then have "filter P [a..<c] = []"
    using assms(2) by (simp add: filter_empty_conv)
  with False show ?thesis by simp
qed

lemma mod_neq_between:
  fixes i j step :: nat
  assumes "i < j" "j < i + step"
  shows "j mod step \<noteq> i mod step"
proof
  assume "j mod step = i mod step"
  then have "step dvd j - i"
    using assms(1) by (simp add: mod_eq_dvd_iff_nat)
  then have "step \<le> j - i"
    using assms(1) by (intro dvd_imp_le) simp_all
  with assms show False by linarith
qed

lemma residue_class_from:
  assumes "0 < step" "i < sz"
  shows "filter (\<lambda>j. j mod step = i mod step) [i..<sz] =
         i # filter (\<lambda>j. j mod step = i mod step) [i + step..<sz]"
proof -
  have "[i..<sz] = i # [Suc i..<sz]"
    using assms(2) by (simp add: upt_conv_Cons)
  moreover have "filter (\<lambda>j. j mod step = i mod step) [Suc i..<sz] =
      filter (\<lambda>j. j mod step = i mod step) [i + step..<sz]"
    using assms(1) using mod_neq_between [of i _ step] by (intro filter_upt_skip) auto
  ultimately show ?thesis by simp
qed

lemma residue_class_from_ge:
  "sz \<le> i \<Longrightarrow> filter P [i..<sz] = []"
  by simp

lemma interlace_inner_eq:
  assumes "0 < step"
  shows "writeofs + length (filter (\<lambda>j. j mod step = i mod step) [i..<sz]) \<le> length result \<Longrightarrow>
    interlace_inner step sz i writeofs result =
      Some (Inr (writeofs + length (filter (\<lambda>j. j mod step = i mod step) [i..<sz]),
        take writeofs result @ map Some (filter (\<lambda>j. j mod step = i mod step) [i..<sz]) @
        drop (writeofs + length (filter (\<lambda>j. j mod step = i mod step) [i..<sz])) result))"
proof (induction "sz - i" arbitrary: i writeofs result rule: less_induct)
  case less
  show ?case
  proof (cases "i < sz")
    case False
    then show ?thesis
      by (subst interlace_inner.simps) simp
  next
    case True
    let ?P = "\<lambda>j. j mod step = i mod step"
    let ?rest = "filter ?P [i + step..<sz]"
    have cls: "filter ?P [i..<sz] = i # ?rest"
      by (rule residue_class_from [OF assms True])
    have same: "(i + step) mod step = i mod step" by simp
    have wlt: "writeofs < length result"
      using less.prems cls by simp
    have "sz - (i + step) < sz - i"
      using assms True by simp
    moreover have "(writeofs + 1) + length ?rest \<le> length (result[writeofs := Some i])"
      using less.prems cls by simp
    ultimately have IH: "interlace_inner step sz (i + step) (writeofs + 1) (result[writeofs := Some i]) =
      Some (Inr (writeofs + 1 + length ?rest,
        take (writeofs + 1) (result[writeofs := Some i]) @ map Some ?rest @
        drop (writeofs + 1 + length ?rest) (result[writeofs := Some i])))"
      using less.hyps [of "i + step" "writeofs + 1" "result[writeofs := Some i]"] same by simp
    have upd: "take (writeofs + 1) (result[writeofs := Some i]) = take writeofs result @ [Some i]"
      using wlt by (simp add: take_Suc_conv_app_nth)
    show ?thesis
      apply (subst interlace_inner.simps)
      using True wlt IH upd cls by simp
  qed
qed


lemma residue_class_start:
  assumes "r < step"
  shows "residue_class sz step r = filter (\<lambda>j. j mod step = r mod step) [r..<sz]"
proof -
  have "filter (\<lambda>j. j mod step = r) [0..<sz] = filter (\<lambda>j. j mod step = r) [r..<sz]"
    using assms by (intro filter_upt_skip) auto
  with assms show ?thesis by (simp add: residue_class_def)
qed

lemma interlace_outer_eq:
  assumes "0 < step"
  shows "start \<le> step \<Longrightarrow>
    writeofs + length (concat (map (residue_class sz step) [start..<step])) \<le> length result \<Longrightarrow>
    interlace_outer step sz start writeofs result =
      Some (Inr (take writeofs result @
        map Some (concat (map (residue_class sz step) [start..<step])) @
        drop (writeofs + length (concat (map (residue_class sz step) [start..<step]))) result))"
proof (induction "step - start" arbitrary: start writeofs result)
  case 0
  then show ?case
    by (subst interlace_outer.simps) simp
next
  case (Suc n)
  then have lt: "start < step" by simp
  let ?c = "residue_class sz step start"
  let ?rest = "concat (map (residue_class sz step) [Suc start..<step])"
  have split: "concat (map (residue_class sz step) [start..<step]) = ?c @ ?rest"
    using lt by (simp add: upt_conv_Cons)
  have room: "writeofs + length ?c \<le> length result"
    using Suc.prems(2) split by simp
  let ?r1 = "take writeofs result @ map Some ?c @ drop (writeofs + length ?c) result"
  have inner: "interlace_inner step sz start writeofs result =
      Some (Inr (writeofs + length ?c, ?r1))"
    using interlace_inner_eq [OF assms, of writeofs start sz result] room
    by (simp add: residue_class_start [OF lt])
  have len1: "length ?r1 = length result"
    using room by simp
  have IH: "interlace_outer step sz (Suc start) (writeofs + length ?c) ?r1 =
      Some (Inr (take (writeofs + length ?c) ?r1 @ map Some ?rest @
        drop (writeofs + length ?c + length ?rest) ?r1))"
    using Suc.hyps(1) [of "Suc start" "writeofs + length ?c" ?r1] Suc.hyps(2) lt Suc.prems(2) split len1
    by simp
  have t: "take (writeofs + length ?c) ?r1 = take writeofs result @ map Some ?c"
    using room by simp
  have d: "drop (writeofs + length ?c + length ?rest) ?r1 =
      drop (writeofs + length ?c + length ?rest) result"
    using room by (simp add: ac_simps)
  have "interlace_outer step sz start writeofs result =
      interlace_outer step sz (Suc start) (writeofs + length ?c) ?r1"
    by (subst interlace_outer.simps) (simp add: lt inner)
  also note IH
  finally show ?case
    unfolding t d split by (simp add: add.assoc)
qed

lemma mset_residue_classes:
  "distinct rs \<Longrightarrow>
   mset (concat (map (\<lambda>r. filter (\<lambda>i. g i = r) xs) rs)) = mset (filter (\<lambda>i. g i \<in> set rs) xs)"
proof (induction rs)
  case Nil
  then show ?case by simp
next
  case (Cons r rs)
  have "mset (filter (\<lambda>i. g i = r) xs) + mset (filter (\<lambda>i. g i \<in> set rs) xs) =
        mset (filter (\<lambda>i. g i = r \<or> g i \<in> set rs) xs)"
    using Cons.prems by (induction xs) auto
  with Cons show ?case by simp
qed

lemma mset_interlace:
  assumes "0 < step"
  shows "mset (interlace sz step) = mset [0..<sz]"
proof -
  have "mset (interlace sz step) = mset (filter (\<lambda>i. i mod step \<in> set [0..<step]) [0..<sz])"
    unfolding interlace_def residue_class_def
    using mset_residue_classes [of "[0..<step]" "\<lambda>i. i mod step" "[0..<sz]"] by simp
  also have "filter (\<lambda>i. i mod step \<in> set [0..<step]) [0..<sz] = [0..<sz]"
    using assms by simp
  finally show ?thesis .
qed

lemma length_interlace: "0 < step \<Longrightarrow> length (interlace sz step) = sz"
  using mset_eq_length [OF mset_interlace, of step sz] by simp

lemma set_interlace: "0 < step \<Longrightarrow> set (interlace sz step) = {0..<sz}"
  using mset_eq_setD [OF mset_interlace, of step sz] by simp

lemma distinct_interlace: "0 < step \<Longrightarrow> distinct (interlace sz step)"
  using mset_eq_imp_distinct_iff [OF mset_interlace, of step sz] by simp

lemma interlace_outer_fresh:
  assumes "0 < step"
  shows "interlace_outer step sz 0 0 (replicate sz None) = Some (Inr (map Some (interlace sz step)))"
  using interlace_outer_eq [OF assms, of 0 0 sz "replicate sz None"] length_interlace [OF assms, of sz]
  by (simp add: interlace_def)

lemma MakeInterlaceTable_steps_eq:
  "MakeInterlaceTable_steps sz steps table =
     Some (Inr (\<lambda>s. if s \<in> set steps \<and> s \<noteq> 0 then Some (map Some (interlace sz s)) else table s))"
proof (induction steps arbitrary: table)
  case Nil
  then show ?case by simp
next
  case (Cons step steps)
  show ?case
  proof (cases "step = 0")
    case True
    then show ?thesis using Cons.IH [of table] by auto
  next
    case False
    let ?v = "map Some (interlace sz step)"
    have "(\<lambda>s. if s \<in> set steps \<and> s \<noteq> 0 then Some (map Some (interlace sz s))
               else (table(step \<mapsto> ?v)) s) =
          (\<lambda>s. if s \<in> set (step # steps) \<and> s \<noteq> 0 then Some (map Some (interlace sz s))
               else table s)"
      using False by (auto simp: fun_eq_iff)
    then have eq: "Some (Inr (\<lambda>s. if s \<in> set steps \<and> s \<noteq> 0 then Some (map Some (interlace sz s))
               else (table(step \<mapsto> ?v)) s)) =
          Some (Inr (\<lambda>s. if s \<in> set (step # steps) \<and> s \<noteq> 0 then Some (map Some (interlace sz s))
               else table s)) "
      by (simp only:)
    have "MakeInterlaceTable_steps sz (step # steps) table =
        MakeInterlaceTable_steps sz steps (table(step \<mapsto> ?v))"
      using False by (simp add: interlace_outer_fresh)
    also note Cons.IH [of "table(step \<mapsto> ?v)"]
    also note eq
    finally show ?thesis .
  qed
qed

lemma MakeInterlaceTable_eq:
  "MakeInterlaceTable sz steps =
     Some (Inr (\<lambda>s. if s \<in> set steps \<and> s \<noteq> 0 then Some (map Some (interlace sz s)) else None))"
  by (simp add: MakeInterlaceTable_def MakeInterlaceTable_steps_eq)

lemma interlace_step_1: "interlace sz 1 = [0..<sz]"
  by (simp add: interlace_def residue_class_def)

lemma filter_eq_upt: "filter (\<lambda>i. i = r) [0..<n] = (if r < n then [r] else [])"
  by (induction n) auto

lemma concat_singletons_upt:
  "n \<le> s \<Longrightarrow> concat (map (\<lambda>r. if r < n then [r] else []) [0..<s]) = [0..<n]"
proof (induction s)
  case 0
  then show ?case by simp
next
  case (Suc s)
  show ?case
  proof (cases "n \<le> s")
    case True
    with Suc.IH show ?thesis by simp
  next
    case False
    with Suc.prems have n: "n = Suc s" by simp
    have "map (\<lambda>r. if r < n then [r] else []) [0..<Suc s] = map (\<lambda>r. [r]) [0..<Suc s]"
      using n by (intro map_cong) auto
    moreover have "concat (map (\<lambda>r. [r]) xs) = xs" for xs :: "nat list"
      by (induction xs) auto
    ultimately show ?thesis using n by (simp only:)
  qed
qed

lemma interlace_step_ge:
  assumes "sz \<le> step"
  shows "interlace sz step = [0..<sz]"
proof -
  have "residue_class sz step = (\<lambda>r. if r < sz then [r] else [])"
  proof (rule ext)
    fix r
    have "filter (\<lambda>i. i mod step = r) [0..<sz] = filter (\<lambda>i. i = r) [0..<sz]"
      using assms by (intro filter_cong) auto
    then show "residue_class sz step r = (if r < sz then [r] else [])"
      by (simp add: residue_class_def filter_eq_upt)
  qed
  then have "interlace sz step = concat (map (\<lambda>r. if r < sz then [r] else []) [0..<step])"
    by (simp add: interlace_def)
  with assms show ?thesis by (simp add: concat_singletons_upt)
qed

lemma map_upt_Suc_shift:
  "map f [0..<Suc m] = f 0 # map (\<lambda>k. f (Suc k)) [0..<m]"
proof -
  have "[0..<Suc m] = 0 # map Suc [0..<m]"
    by (simp only: map_Suc_upt upt_conv_Cons [of 0 "Suc m"] zero_less_Suc if_True)
  then show ?thesis by (simp only: list.map map_map comp_def)
qed

lemma div_add_step: "0 < (step::nat) \<Longrightarrow> (a + step) div step = Suc (a div step)"
  using div_add_self2 [of step a] by linarith

lemma residue_progression:
  assumes "0 < step"
  shows "filter (\<lambda>j. j mod step = i mod step) [i..<sz] =
         map (\<lambda>k. i + k * step) [0..<(sz + step - 1 - i) div step]"
proof (induction "sz - i" arbitrary: i rule: less_induct)
  case less
  show ?case
  proof (cases "i < sz")
    case False
    then have "sz + step - 1 - i < step" using assms by simp
    then have "(sz + step - 1 - i) div step = 0" by simp
    with False show ?thesis by simp
  next
    case True
    let ?m = "(sz + step - 1 - (i + step)) div step"
    have same: "(i + step) mod step = i mod step" by simp
    have "sz - (i + step) < sz - i" using assms True by simp
    from less.hyps [OF this]
    have IH: "filter (\<lambda>j. j mod step = i mod step) [i + step..<sz] =
        map (\<lambda>k. i + step + k * step) [0..<?m]"
      unfolding same .
    have "sz + step - 1 - i = (sz + step - 1 - (i + step)) + step"
      using True by simp
    then have "(sz + step - 1 - i) div step = ((sz + step - 1 - (i + step)) + step) div step"
      by (simp only:)
    also have "\<dots> = Suc ?m"
      by (rule div_add_step [OF assms])
    finally have cnt: "(sz + step - 1 - i) div step = Suc ?m" .
    have "map (\<lambda>k. i + k * step) [0..<Suc ?m] = i # map (\<lambda>k. i + Suc k * step) [0..<?m]"
      by (simp only: map_upt_Suc_shift [of "\<lambda>k. i + k * step"]) simp
    also have "map (\<lambda>k. i + Suc k * step) [0..<?m] = map (\<lambda>k. i + step + k * step) [0..<?m]"
      by (intro map_cong) simp_all
    finally have "map (\<lambda>k. i + k * step) [0..<Suc ?m] = i # filter (\<lambda>j. j mod step = i mod step) [i + step..<sz]"
      unfolding IH .
    then show ?thesis
      unfolding cnt residue_class_from [OF assms True] by (rule sym)
  qed
qed

lemma residue_class_progression:
  assumes "r < step"
  shows "residue_class sz step r = map (\<lambda>k. r + k * step) [0..<(sz + step - 1 - r) div step]"
  using residue_progression [of step r sz] residue_class_start [OF assms, of sz] assms by simp

subsection \<open>Encode on an all-zero buffer\<close>

lemma bindE_simps [simp]:
  "bindE (Inl e) f = Inl e"
  "bindE (Inr x) f = f x"
  by (simp_all add: bindE_def)

lemma and_7_mod_8: "(x::int) AND 7 = x mod 8"
proof -
  have "take_bit 3 x = x AND mask 3" by (rule take_bit_eq_mask)
  then show ?thesis by (simp add: take_bit_eq_mod mask_eq_exp_minus_1)
qed

lemma drop_bit_3_div_8: "drop_bit 3 (x::int) = x div 8"
  by (simp add: drop_bit_eq_div)

lemma Encode_literal_zero:
  "r < length ws \<Longrightarrow> ws ! r = 0 \<Longrightarrow> Encode_literal ws r flagB wo fv = Inr (flagB, wo, fv)"
  by (simp add: Encode_literal_def list_get_def)

lemma mv_store_in_range:
  "0 \<le> i \<Longrightarrow> i < int (length mv) \<Longrightarrow> 0 \<le> v \<Longrightarrow> v < 256 \<Longrightarrow>
   mv_store mv i v = Inr (mv[nat i := word_of_int v])"
  by (simp add: mv_store_def py_index_def to_byte_def)

lemma Encode_flags_zero:
  assumes "1 \<le> a" "1 \<le> b" "b = 1 \<Longrightarrow> a = 1 \<Longrightarrow> 1 \<le> k \<and> k \<le> length fv"
  shows "Encode_flags 0 0 (int k) (int a) (int b) fv =
     (if b = 1 then
        (if a = 1 then Inr (0, int (k - 1), 8, 8, fv[k - 1 := 0])
         else Inr (0, int k, int (a - 1), 8, fv))
      else Inr (0, int k, int a, int (b - 1), fv))"
proof -
  have b: "int b - 1 = 0 \<longleftrightarrow> b = 1" by auto
  have a: "int a - 1 = 0 \<longleftrightarrow> a = 1" by auto
  show ?thesis
  proof (cases "b = 1 \<and> a = 1")
    case True
    with assms(3) have k: "1 \<le> k" "k \<le> length fv" by simp_all
    then have "mv_store fv (int k - 1) 0 = Inr (fv[k - 1 := 0])"
      using mv_store_in_range [of "int k - 1" fv 0] by (simp add: nat_diff_distrib')
    with True k show ?thesis
      by (simp add: Encode_flags_def of_nat_diff)
  next
    case False
    with assms(1,2) show ?thesis
      by (auto simp: Encode_flags_def of_nat_diff)
  qed
qed

lemma flagA_count_0 [simp]: "1 \<le> a \<Longrightarrow> 1 \<le> b \<Longrightarrow> flagA_count 0 a b = 0"
  by (simp add: flagA_count_def)

lemma flagA_count_Suc:
  assumes "1 \<le> a" "a \<le> 8" "1 \<le> b" "b \<le> 8"
  shows "flagA_count (Suc r) a b =
     (if b = 1 then (if a = 1 then Suc (flagA_count r 8 8) else flagA_count r (a - 1) 8)
      else flagA_count r a (b - 1))"
  using assms unfolding flagA_count_def by (auto simp: Suc_diff_le) 

lemma Encode_loop_zeros:
  assumes "\<forall>i<r. ws ! i = 0" "r \<le> length ws" "1 \<le> a" "a \<le> 8" "1 \<le> b" "b \<le> 8"
    and "flagA_count r a b \<le> k" "k \<le> length fv"
  shows "Encode_loop ws r 0 0 (int k) (int a) (int b) fv =
     Inr (int (k - flagA_count r a b),
          take (k - flagA_count r a b) fv @ replicate (flagA_count r a b) 0 @ drop k fv)"
  using assms
proof (induction r arbitrary: a b k fv)
  case 0
  then show ?case by simp
next
  case (Suc r)
  have lit: "Encode_literal ws r (drop_bit 1 0) (int k) fv = Inr (0, int k, fv)"
    using Suc.prems(1,2) by (simp add: Encode_literal_zero)
  have zeros: "\<forall>i<r. ws ! i = 0" and len: "r \<le> length ws"
    using Suc.prems(1,2) by simp_all
  note cnt = flagA_count_Suc [OF Suc.prems(3-6), of r]
  consider (both) "b = 1" "a = 1" | (onlyB) "b = 1" "a \<noteq> 1" | (none) "b \<noteq> 1" by blast
  then show ?case
  proof cases
    case both
    let ?n = "flagA_count r 8 8"
    from cnt both have n: "flagA_count (Suc r) a b = Suc ?n" by simp
    with Suc.prems(7,8) have k: "1 \<le> k" "k \<le> length fv" "?n \<le> k - 1" by simp_all
    have fl: "Encode_flags 0 0 (int k) (int a) (int b) fv = Inr (0, int (k - 1), 8, 8, fv[k - 1 := 0])"
      using Encode_flags_zero [of a b k fv] both k by simp
    have "Encode_loop ws r 0 0 (int (k - 1)) (int 8) (int 8) (fv[k - 1 := 0]) =
      Inr (int (k - 1 - ?n), take (k - 1 - ?n) (fv[k - 1 := 0]) @ replicate ?n 0 @ drop (k - 1) (fv[k - 1 := 0]))"
      using k by (intro Suc.IH zeros len) simp_all
    then have IH: "Encode_loop ws r 0 0 (int (k - 1)) 8 8 (fv[k - 1 := 0]) =
      Inr (int (k - 1 - ?n), take (k - 1 - ?n) (fv[k - 1 := 0]) @ replicate ?n 0 @ drop (k - 1) (fv[k - 1 := 0]))"
      by simp
    have d: "drop (k - 1) (fv[k - 1 := 0]) = 0 # drop k fv"
      using k by (simp add: drop_update_cancel Cons_nth_drop_Suc [symmetric] upd_conv_take_nth_drop)
    have t: "take (k - 1 - ?n) (fv[k - 1 := 0]) = take (k - Suc ?n) fv"
      using k by simp
    have r: "replicate ?n (0::byte) @ 0 # drop k fv = replicate (Suc ?n) 0 @ drop k fv"
      by (simp add: replicate_app_Cons_same)
    have fin: "take (k - 1 - ?n) (fv[k - 1 := 0]) @ replicate ?n 0 @ drop (k - 1) (fv[k - 1 := 0]) =
        take (k - Suc ?n) fv @ replicate (Suc ?n) 0 @ drop k fv"
      by (simp only: d t r)
    have e: "k - 1 - ?n = k - Suc ?n" by simp
    have IH': "Encode_loop ws r 0 0 (int (k - 1)) 8 8 (fv[k - 1 := 0]) =
      Inr (int (k - Suc ?n), take (k - Suc ?n) fv @ replicate (Suc ?n) 0 @ drop k fv)"
      unfolding IH fin unfolding e ..
    show ?thesis
      by (simp only: Encode_loop.simps lit fl bindE_simps prod.case IH' n)
  next
    case onlyB
    from cnt onlyB have n: "flagA_count (Suc r) a b = flagA_count r (a - 1) 8" by simp
    have fl: "Encode_flags 0 0 (int k) (int a) (int b) fv = Inr (0, int k, int (a - 1), 8, fv)"
      using Encode_flags_zero [of a b k fv] onlyB Suc.prems(3,5) by simp
    have "Encode_loop ws r 0 0 (int k) (int (a - 1)) (int 8) fv =
      Inr (int (k - flagA_count r (a - 1) 8),
           take (k - flagA_count r (a - 1) 8) fv @ replicate (flagA_count r (a - 1) 8) 0 @ drop k fv)"
      using Suc.prems onlyB n by (intro Suc.IH zeros len) simp_all
    then have IH: "Encode_loop ws r 0 0 (int k) (int (a - 1)) 8 fv =
      Inr (int (k - flagA_count r (a - 1) 8),
           take (k - flagA_count r (a - 1) 8) fv @ replicate (flagA_count r (a - 1) 8) 0 @ drop k fv)"
      by simp
    show ?thesis
      by (simp only: Encode_loop.simps lit fl bindE_simps prod.case IH n)
  next
    case none
    from cnt none have n: "flagA_count (Suc r) a b = flagA_count r a (b - 1)" by simp
    have fl: "Encode_flags 0 0 (int k) (int a) (int b) fv = Inr (0, int k, int a, int (b - 1), fv)"
      using Encode_flags_zero [of a b k fv] none Suc.prems(3,5) by simp
    have IH: "Encode_loop ws r 0 0 (int k) (int a) (int (b - 1)) fv =
      Inr (int (k - flagA_count r a (b - 1)),
           take (k - flagA_count r a (b - 1)) fv @ replicate (flagA_count r a (b - 1)) 0 @ drop k fv)"
      using Suc.prems none n by (intro Suc.IH zeros len) simp_all
    show ?thesis
      by (simp only: Encode_loop.simps lit fl bindE_simps prod.case IH n)
  qed
qed

lemma Encode_counters:
  "drop_bit 3 (int L + 7) AND 7 = int (((L + 7) div 8) mod 8)"
  "int L AND 7 = int (L mod 8)"
  by (simp_all add: and_7_mod_8 drop_bit_3_div_8 zdiv_int zmod_int)

lemma ceil8: "(n + 8 - (if n mod 8 = 0 then 8 else n mod 8)) div 8 = (n + 7) div (8::nat)"
proof -
  obtain q r where n: "n = 8 * q + r" and r: "r < 8"
    using mod_less_divisor [of 8 n] div_mult_mod_eq [of n 8]
    by (metis mult.commute zero_less_numeral)
  show ?thesis
  proof (cases "r = 0")
    case True
    with n show ?thesis by simp
  next
    case False
    with r have "(r + 7) div 8 = 1" by simp
    moreover have "(8 * q + r + 7) div 8 = q + (r + 7) div 8" by simp
    ultimately show ?thesis using n r False by simp
  qed
qed

lemma ceil64: "((L + 7) div 8 + 7) div 8 = (L + 63) div (64::nat)"
proof -
  have "(L + 63) div 64 = ((L + 63) div 8) div 8"
    by (simp add: div_mult2_eq [symmetric])
  also have "(L + 63) div 8 = (L + 7) div 8 + 7"
    by presburger
  finally show ?thesis by simp
qed

lemma flagA_count_initial:
  "flagA_count L (if ((L + 7) div 8) mod 8 = 0 then 8 else ((L + 7) div 8) mod 8)
     (if L mod 8 = 0 then 8 else L mod 8) = (L + 63) div 64"
  unfolding flagA_count_def by (simp only: ceil8 ceil64)

subsection \<open>HorizontalIX: the candidates\<close>

lemma list_get_simps [simp]:
  "i < length xs \<Longrightarrow> list_get xs i = Inr (xs ! i)"
  "length xs \<le> i \<Longrightarrow> list_get xs i = Inl IndexError"
  by (simp_all add: list_get_def)

lemma list_set_simps [simp]:
  "i < length xs \<Longrightarrow> list_set xs i v = Inr (xs[i := v])"
  "length xs \<le> i \<Longrightarrow> list_set xs i v = Inl IndexError"
  by (simp_all add: list_set_def)

lemma length_delta_writes [simp]: "length (delta_writes pl p lastbyte row) = length row"
  by (induction p arbitrary: lastbyte row) simp_all

lemma delta_writes_0 [simp]: "delta_writes pl p lastbyte row ! 0 = row ! 0"
  by (induction p arbitrary: lastbyte row) simp_all

lemma delta_writes_other:
  "k \<notin> Suc ` set p \<Longrightarrow> delta_writes pl p lastbyte row ! k = row ! k"
  by (induction p arbitrary: lastbyte row) (auto simp: nth_list_update)

lemma delta_writes_nth:
  assumes "distinct p" "x < length p" "p ! x < length row - 1"
  shows "delta_writes pl p lastbyte row ! (p ! x + 1) =
         (if x = 0 then lastbyte else pl ! (p ! (x - 1))) XOR pl ! (p ! x)"
  using assms
proof (induction p arbitrary: lastbyte row x)
  case Nil
  then show ?case by simp
next
  case (Cons q qs)
  show ?case
  proof (cases x)
    case 0
    have "Suc q \<notin> Suc ` set qs" using Cons.prems(1) by auto
    then have "delta_writes pl qs (pl ! q) (row[q + 1 := lastbyte XOR pl ! q]) ! Suc q =
        (row[q + 1 := lastbyte XOR pl ! q]) ! Suc q"
      by (rule delta_writes_other)
    with 0 Cons.prems(3) show ?thesis by simp
  next
    case (Suc y)
    with Cons.prems have "delta_writes pl qs (pl ! q) (row[q + 1 := lastbyte XOR pl ! q]) ! (qs ! y + 1) =
        (if y = 0 then pl ! q else pl ! (qs ! (y - 1))) XOR pl ! (qs ! y)"
      by (intro Cons.IH) simp_all
    with Suc show ?thesis by (cases y) simp_all
  qed
qed

lemma delta_writes_determined:
  assumes "distinct p" "set p = {0..<n}" "length row1 = n + 1" "length row2 = n + 1"
    and "row1 ! 0 = row2 ! 0"
  shows "delta_writes pl p lastbyte row1 = delta_writes pl p lastbyte row2"
proof (rule nth_equalityI)
  show "length (delta_writes pl p lastbyte row1) = length (delta_writes pl p lastbyte row2)"
    using assms(3,4) by simp
next
  fix k assume "k < length (delta_writes pl p lastbyte row1)"
  then have k: "k < n + 1" using assms(3) by simp
  show "delta_writes pl p lastbyte row1 ! k = delta_writes pl p lastbyte row2 ! k"
  proof (cases k)
    case 0
    with assms(5) show ?thesis by simp
  next
    case (Suc q)
    with k have "q \<in> set p" using assms(2) by simp
    then obtain x where x: "x < length p" "p ! x = q" by (auto simp: in_set_conv_nth)
    have "p ! x < length row1 - 1" "p ! x < length row2 - 1"
      using x k Suc assms(3,4) by simp_all
    then show ?thesis
      using delta_writes_nth [OF assms(1) x(1), of row1 pl lastbyte]
        delta_writes_nth [OF assms(1) x(1), of row2 pl lastbyte] x(2) Suc by simp
  qed
qed

lemma slice_nth:
  "a + i < length xs \<Longrightarrow> a + i < b \<Longrightarrow> slice xs a b ! i = xs ! (a + i)"
  by (simp add: slice_def)

lemma length_slice: "length (slice xs a b) = min (b - a) (length xs - a)"
  by (simp add: slice_def)

lemma hrz_fill_eq:
  assumes "length row = stride + 1" "lookup = map Some p" "set p \<subseteq> {0..<stride}"
    and "rowstart + stride \<le> length workview"
  shows "rowbuf hrz = Some row \<Longrightarrow> i \<le> length p \<Longrightarrow>
    hrz_fill workview rowstart lookup hrz [i..<length p] lastbyte rowbuf =
      Inr (rowbuf(hrz \<mapsto>
        delta_writes (slice workview rowstart (rowstart + stride)) (drop i p) lastbyte row))"
  using assms(1)
proof (induction "length p - i" arbitrary: i lastbyte rowbuf row)
  case 0
  then show ?case by (simp add: fun_upd_idem)
next
  case (Suc n)
  let ?pl = "slice workview rowstart (rowstart + stride)"
  from Suc.hyps(2) have i: "i < length p" by simp
  then have lx: "p ! i < stride" using assms(3) by (auto simp: subset_iff)
  have upt: "[i..<length p] = i # [Suc i..<length p]" using i by (simp add: upt_conv_Cons)
  have drp: "drop i p = p ! i # drop (Suc i) p" using i by (simp add: Cons_nth_drop_Suc)
  have get: "list_get lookup i = Inr (Some (p ! i))" using i assms(2) by simp
  have rd: "list_get workview (rowstart + p ! i) = Inr (?pl ! (p ! i))"
    using lx assms(4) by (simp add: slice_nth)
  let ?row' = "row[Suc (p ! i) := lastbyte XOR ?pl ! (p ! i)]"
  have st: "list_set row (Suc (p ! i)) (lastbyte XOR ?pl ! (p ! i)) = Inr ?row'"
    using lx Suc.prems(3) by simp
  have IH: "hrz_fill workview rowstart lookup hrz [Suc i..<length p] (?pl ! (p ! i))
              (rowbuf(hrz \<mapsto> ?row')) =
      Inr ((rowbuf(hrz \<mapsto> ?row'))(hrz \<mapsto> delta_writes ?pl (drop (Suc i) p) (?pl ! (p ! i)) ?row'))"
    using Suc.hyps(2) i Suc.prems(3) by (intro Suc.hyps(1)) simp_all
  show ?case
    unfolding upt drp
    by (simp add: get rd st Suc.prems(1) IH)
qed

lemma candidate_length [simp]: "length (candidate s pl) = length pl + 1"
  by (simp add: candidate_def)

lemma candidate_marker [simp]: "candidate s pl ! 0 = of_nat s"
  by (simp add: candidate_def)

lemma hrz_fill_candidate:
  assumes "rowbuf hrz = Some row" "length row = stride + 1" "row ! 0 = of_nat hrz" "0 < hrz"
    and "rowstart + stride \<le> length workview"
  shows "hrz_fill workview rowstart (map Some (interlace stride hrz)) hrz [0..<stride] 0 rowbuf =
      Inr (rowbuf(hrz \<mapsto> candidate hrz (slice workview rowstart (rowstart + stride))))"
proof -
  let ?p = "interlace stride hrz"
  let ?pl = "slice workview rowstart (rowstart + stride)"
  have len: "length ?p = stride" by (rule length_interlace [OF assms(4)])
  have set: "set ?p = {0..<stride}" by (rule set_interlace [OF assms(4)])
  have lpl: "length ?pl = stride" using assms(5) by (simp add: length_slice)
  have "hrz_fill workview rowstart (map Some ?p) hrz [0..<length ?p] 0 rowbuf =
      Inr (rowbuf(hrz \<mapsto> delta_writes ?pl (drop 0 ?p) 0 row))"
    using set hrz_fill_eq [of row stride "map Some ?p" ?p rowstart workview rowbuf hrz 0 0]
      assms(1,2,5) by simp
  moreover have "delta_writes ?pl ?p 0 row = delta_writes ?pl ?p 0 (of_nat hrz # replicate stride 0)"
    using distinct_interlace [OF assms(4), of stride] set assms(2,3)
    by (intro delta_writes_determined [where n = stride]) simp_all
  ultimately show ?thesis
    using assms(4) by (simp add: len candidate_def lpl)
qed

lemma set_hrz_steps: "set hrz_steps = {0..<81}"
  by (simp add: hrz_steps_def)

lemma hrz_fill_steps_eq:
  assumes "rowstart + stride \<le> length workview"
    and "pl = slice workview rowstart (rowstart + stride)"
  shows "set hrzs \<subseteq> set steps \<Longrightarrow>
    \<forall>s \<in> set hrzs. s \<noteq> 0 \<longrightarrow>
      (\<exists>row. rowbuf s = Some row \<and> length row = stride + 1 \<and> row ! 0 = of_nat s) \<Longrightarrow>
    hrz_fill_steps workview rowstart stride (interlace_table stride steps) hrzs rowbuf =
      Inr (\<lambda>s. if s \<in> set hrzs \<and> s \<noteq> 0 then Some (candidate s pl) else rowbuf s)"
proof (induction hrzs arbitrary: rowbuf)
  case Nil
  then show ?case by simp
next
  case (Cons hrz hrzs)
  have lpl: "length pl = stride" using assms by (simp add: length_slice)
  show ?case
  proof (cases "hrz = 0")
    case True
    have "hrz_fill_steps workview rowstart stride (interlace_table stride steps) hrzs rowbuf =
        Inr (\<lambda>s. if s \<in> set hrzs \<and> s \<noteq> 0 then Some (candidate s pl) else rowbuf s)"
      using Cons.prems by (intro Cons.IH) simp_all
    moreover have "(\<lambda>s. if s \<in> set hrzs \<and> s \<noteq> 0 then Some (candidate s pl) else rowbuf s) =
        (\<lambda>s. if s \<in> set (hrz # hrzs) \<and> s \<noteq> 0 then Some (candidate s pl) else rowbuf s)"
      using True by (auto simp: fun_eq_iff)
    ultimately show ?thesis using True by simp
  next
    case False
    then obtain row where row: "rowbuf hrz = Some row" "length row = stride + 1" "row ! 0 = of_nat hrz"
      using Cons.prems(2) by auto
    have tab: "interlace_table stride steps hrz = Some (map Some (interlace stride hrz))"
      using False Cons.prems(1) by (simp add: interlace_table_def)
    let ?rb = "rowbuf(hrz \<mapsto> candidate hrz pl)"
    have fill: "hrz_fill workview rowstart (map Some (interlace stride hrz)) hrz [0..<stride] 0 rowbuf =
        Inr ?rb"
      using hrz_fill_candidate [of rowbuf hrz row stride rowstart workview] row False assms by simp
    have "hrz_fill_steps workview rowstart stride (interlace_table stride steps) hrzs ?rb =
        Inr (\<lambda>s. if s \<in> set hrzs \<and> s \<noteq> 0 then Some (candidate s pl) else ?rb s)"
      using Cons.prems lpl by (intro Cons.IH) auto
    moreover have "(\<lambda>s. if s \<in> set hrzs \<and> s \<noteq> 0 then Some (candidate s pl) else ?rb s) =
        (\<lambda>s. if s \<in> set (hrz # hrzs) \<and> s \<noteq> 0 then Some (candidate s pl) else rowbuf s)"
      using False by (auto simp: fun_eq_iff)
    ultimately show ?thesis using False by (simp add: tab fill)
  qed
qed

lemma hrz_candidates_eq:
  assumes "rowbuf_ok stride rowbuf" "rowstart + stride \<le> length workview"
    and "pl = slice workview rowstart (rowstart + stride)"
  shows "hrz_candidates workview rowstart stride (interlace_table stride hrz_steps) rowbuf =
      Inr (\<lambda>s. if s \<in> set hrz_steps then Some (candidate s pl) else rowbuf s)"
proof -
  have lpl: "length pl = stride" using assms by (simp add: length_slice)
  have zero: "0 \<in> set hrz_steps" by (simp add: set_hrz_steps)
  then obtain row0 where row0: "rowbuf 0 = Some row0" "length row0 = stride + 1" "row0 ! 0 = 0"
    using assms(1) unfolding rowbuf_ok_def by fastforce
  have "take 1 row0 = [0]"
    using row0(2,3) by (cases row0) simp_all
  then have c0: "ba_set_slice row0 1 (1 + stride) pl = candidate 0 pl"
    using row0(2) by (simp add: ba_set_slice_def candidate_def)
  let ?rb = "rowbuf(0 \<mapsto> candidate 0 pl)"
  have "hrz_fill_steps workview rowstart stride (interlace_table stride hrz_steps) hrz_steps ?rb =
      Inr (\<lambda>s. if s \<in> set hrz_steps \<and> s \<noteq> 0 then Some (candidate s pl) else ?rb s)"
    using assms(1) unfolding rowbuf_ok_def
    by (intro hrz_fill_steps_eq [OF assms(2,3)]) (auto simp: lpl)
  moreover have "(\<lambda>s. if s \<in> set hrz_steps \<and> s \<noteq> 0 then Some (candidate s pl) else ?rb s) =
      (\<lambda>s. if s \<in> set hrz_steps then Some (candidate s pl) else rowbuf s)"
    using zero by (auto simp: fun_eq_iff)
  ultimately show ?thesis
    using row0(1) c0 assms(3) by (simp add: hrz_candidates_def)
qed

lemma rowbuf_ok_candidates:
  "length pl = stride \<Longrightarrow>
   rowbuf_ok stride (\<lambda>s. if s \<in> set hrz_steps then Some (candidate s pl) else rowbuf s)"
  by (simp add: rowbuf_ok_def)

subsection \<open>HorizontalIX: the estimate and the selection\<close>

lemma row_bits_loop_eq:
  "i \<le> length row \<Longrightarrow>
   row_bits_loop row [i..<length row] st = Inr (fst (snd (fold bits_step (drop i row) st)))"
proof (induction "length row - i" arbitrary: i st)
  case 0
  then show ?case by (cases st) simp
next
  case (Suc n)
  then have i: "i < length row" by simp
  have upt: "[i..<length row] = i # [Suc i..<length row]" using i by (simp add: upt_conv_Cons)
  have drp: "drop i row = row ! i # drop (Suc i) row" using i by (simp add: Cons_nth_drop_Suc)
  have "row_bits_loop row [Suc i..<length row] (bits_step (row ! i) st) =
      Inr (fst (snd (fold bits_step (drop (Suc i) row) (bits_step (row ! i) st))))"
    using Suc.hyps(2) i by (intro Suc.hyps(1)) simp_all
  then show ?case unfolding upt drp using i by simp
qed

lemma row_bits_eq:
  "length row = stride + 1 \<Longrightarrow> row_bits stride rowstart row = Inr (cost rowstart row)"
  using row_bits_loop_eq [of 0 row "(0, 0, rowstart)"] by (simp add: row_bits_def cost_def)

lemma bits_step_le:
  "fst (snd (bits_step b (nullrun, bits, align))) \<le> bits + 8"
  by (simp add: bits_step_def Let_def)

lemma fold_bits_step_le:
  "fst (snd (fold bits_step row (nullrun, bits, align))) \<le> bits + 8 * int (length row)"
proof (induction row arbitrary: nullrun bits align)
  case Nil
  then show ?case by simp
next
  case (Cons b row)
  obtain n' b' a' where st: "bits_step b (nullrun, bits, align) = (n', b', a')"
    by (cases "bits_step b (nullrun, bits, align)") auto
  have "b' \<le> bits + 8" using bits_step_le [of b nullrun bits align] st by simp
  with Cons.IH [of n' b' a'] st show ?case by simp
qed

lemma cost_le: "cost rowstart row \<le> 8 * int (length row)"
  using fold_bits_step_le [of row 0 0 rowstart] by (simp add: cost_def)

lemma hrz_select_eq:
  "\<forall>s \<in> set hrzs. rowbuf s = Some (c s) \<and> length (c s) = stride + 1 \<Longrightarrow>
   hrz_select rowbuf stride rowstart hrzs bestbits besthrz =
     Inr (select_best (map (\<lambda>s. (s, cost rowstart (c s))) hrzs) bestbits besthrz)"
  by (induction hrzs arbitrary: bestbits besthrz) (simp_all add: row_bits_eq)

lemma select_best_spec:
  "select_best (map (\<lambda>s. (s, f s)) hrzs) bestbits besthrz = (bb, bh) \<Longrightarrow>
   (if \<exists>s \<in> set hrzs. f s < bestbits
    then \<exists>i < length hrzs. bh = Some (hrzs ! i) \<and> bb = f (hrzs ! i) \<and>
           (\<forall>j < i. bb < f (hrzs ! j)) \<and> (\<forall>s \<in> set hrzs. bb \<le> f s) \<and> bb < bestbits
    else bb = bestbits \<and> bh = besthrz)"
proof (induction hrzs arbitrary: bestbits besthrz)
  case Nil
  then show ?case by simp
next
  case (Cons hrz hrzs)
  show ?case
  proof (cases "f hrz < bestbits")
    case True
    with Cons.prems have sel: "select_best (map (\<lambda>s. (s, f s)) hrzs) (f hrz) (Some hrz) = (bb, bh)"
      by simp
    note IH = Cons.IH [OF sel]
    show ?thesis
    proof (cases "\<exists>s \<in> set hrzs. f s < f hrz")
      case True
      with IH obtain i where i: "i < length hrzs" "bh = Some (hrzs ! i)" "bb = f (hrzs ! i)"
        "\<forall>j < i. bb < f (hrzs ! j)" "\<forall>s \<in> set hrzs. bb \<le> f s" "bb < f hrz"
        by auto
      have "\<forall>j < Suc i. bb < f ((hrz # hrzs) ! j)"
        using i(4,6) by (auto simp: less_Suc_eq_0_disj)
      with i \<open>f hrz < bestbits\<close> have
        "Suc i < length (hrz # hrzs) \<and> bh = Some ((hrz # hrzs) ! Suc i) \<and>
         bb = f ((hrz # hrzs) ! Suc i) \<and> (\<forall>j < Suc i. bb < f ((hrz # hrzs) ! j)) \<and>
         (\<forall>s \<in> set (hrz # hrzs). bb \<le> f s) \<and> bb < bestbits"
        by auto
      then have "\<exists>i < length (hrz # hrzs). bh = Some ((hrz # hrzs) ! i) \<and>
         bb = f ((hrz # hrzs) ! i) \<and> (\<forall>j < i. bb < f ((hrz # hrzs) ! j)) \<and>
         (\<forall>s \<in> set (hrz # hrzs). bb \<le> f s) \<and> bb < bestbits"
        by blast
      with \<open>f hrz < bestbits\<close> show ?thesis by auto
    next
      case False
      with IH have "bb = f hrz" "bh = Some hrz" by auto
      with False \<open>f hrz < bestbits\<close> have
        "0 < length (hrz # hrzs) \<and> bh = Some ((hrz # hrzs) ! 0) \<and>
         bb = f ((hrz # hrzs) ! 0) \<and> (\<forall>j < 0. bb < f ((hrz # hrzs) ! j)) \<and>
         (\<forall>s \<in> set (hrz # hrzs). bb \<le> f s) \<and> bb < bestbits"
        by auto
      then have "\<exists>i < length (hrz # hrzs). bh = Some ((hrz # hrzs) ! i) \<and>
         bb = f ((hrz # hrzs) ! i) \<and> (\<forall>j < i. bb < f ((hrz # hrzs) ! j)) \<and>
         (\<forall>s \<in> set (hrz # hrzs). bb \<le> f s) \<and> bb < bestbits"
        by blast
      with \<open>f hrz < bestbits\<close> show ?thesis by auto
    qed
  next
    case False
    with Cons.prems have sel: "select_best (map (\<lambda>s. (s, f s)) hrzs) bestbits besthrz = (bb, bh)"
      by simp
    note IH = Cons.IH [OF sel]
    show ?thesis
    proof (cases "\<exists>s \<in> set hrzs. f s < bestbits")
      case True
      with IH obtain i where i: "i < length hrzs" "bh = Some (hrzs ! i)" "bb = f (hrzs ! i)"
        "\<forall>j < i. bb < f (hrzs ! j)" "\<forall>s \<in> set hrzs. bb \<le> f s" "bb < bestbits"
        by auto
      have "\<forall>j < Suc i. bb < f ((hrz # hrzs) ! j)"
        using i(4,6) False by (auto simp: less_Suc_eq_0_disj)
      with i False have
        "Suc i < length (hrz # hrzs) \<and> bh = Some ((hrz # hrzs) ! Suc i) \<and>
         bb = f ((hrz # hrzs) ! Suc i) \<and> (\<forall>j < Suc i. bb < f ((hrz # hrzs) ! j)) \<and>
         (\<forall>s \<in> set (hrz # hrzs). bb \<le> f s) \<and> bb < bestbits"
        by auto
      then have "\<exists>i < length (hrz # hrzs). bh = Some ((hrz # hrzs) ! i) \<and>
         bb = f ((hrz # hrzs) ! i) \<and> (\<forall>j < i. bb < f ((hrz # hrzs) ! j)) \<and>
         (\<forall>s \<in> set (hrz # hrzs). bb \<le> f s) \<and> bb < bestbits"
        by blast
      with True show ?thesis by auto
    next
      case False
      with IH \<open>\<not> f hrz < bestbits\<close> show ?thesis by auto
    qed
  qed
qed

lemma best_step_spec:
  assumes "8 * (int (length pl) + 1) < 0xFFFF"
  shows "\<exists>best < 81. best_step rowstart pl besthrz = Some best \<and>
     (\<forall>s < 81. cost rowstart (candidate best pl) \<le> cost rowstart (candidate s pl)) \<and>
     (\<forall>s < best. cost rowstart (candidate best pl) < cost rowstart (candidate s pl))"
proof -
  let ?f = "\<lambda>s. cost rowstart (candidate s pl)"
  obtain bb bh where sel: "select_best (map (\<lambda>s. (s, ?f s)) hrz_steps) 0xFFFF besthrz = (bb, bh)"
    by (cases "select_best (map (\<lambda>s. (s, ?f s)) hrz_steps) 0xFFFF besthrz") auto
  have "?f 0 \<le> 8 * int (length (candidate 0 pl))" by (rule cost_le)
  with assms have "?f 0 < 0xFFFF" by simp
  moreover have "0 \<in> set hrz_steps" by (simp add: set_hrz_steps)
  ultimately have ex: "\<exists>s \<in> set hrz_steps. ?f s < 0xFFFF" by blast
  from select_best_spec [OF sel] ex obtain i where i: "i < length hrz_steps"
    "bh = Some (hrz_steps ! i)" "bb = ?f (hrz_steps ! i)"
    "\<forall>j < i. bb < ?f (hrz_steps ! j)" "\<forall>s \<in> set hrz_steps. bb \<le> ?f s"
    by auto
  have nth: "hrz_steps ! j = j" if "j < 81" for j
    using that by (simp add: hrz_steps_def)
  have len: "length hrz_steps = 81" by (simp add: hrz_steps_def)
  have i81: "i < 81" using i(1) len by simp
  have "best_step rowstart pl besthrz = Some i"
    using sel i(2) nth [OF i81] by (simp add: best_step_def)
  moreover have "\<forall>s < 81. ?f i \<le> ?f s"
    using i(3,5) nth [OF i81] by (simp add: set_hrz_steps)
  moreover have "\<forall>s < i. ?f i < ?f s"
    using i(3,4) i81 nth by auto
  ultimately show ?thesis using i81 by blast
qed

lemma best_step_range:
  assumes "\<forall>b. besthrz = Some b \<longrightarrow> b < 81" "best_step rowstart pl besthrz = Some best"
  shows "best < 81"
proof -
  let ?f = "\<lambda>s. cost rowstart (candidate s pl)"
  obtain bb bh where sel: "select_best (map (\<lambda>s. (s, ?f s)) hrz_steps) 0xFFFF besthrz = (bb, bh)"
    by (cases "select_best (map (\<lambda>s. (s, ?f s)) hrz_steps) 0xFFFF besthrz") auto
  then have bh: "bh = Some best" using assms(2) by (simp add: best_step_def)
  show ?thesis
  proof (cases "\<exists>s \<in> set hrz_steps. ?f s < 0xFFFF")
    case True
    with select_best_spec [OF sel] obtain i where "i < length hrz_steps" "bh = Some (hrz_steps ! i)"
      by auto
    with bh show ?thesis by (simp add: hrz_steps_def)
  next
    case False
    with select_best_spec [OF sel] have "bh = besthrz" by auto
    with bh assms(1) show ?thesis by simp
  qed
qed

lemma HorizontalIX_row_eq:
  assumes "rowbuf_ok stride rowbuf" "1 \<le> rowstart" "rowstart + stride \<le> length workview"
    and "\<forall>b. besthrz = Some b \<longrightarrow> b < 81"
    and "pl = slice workview rowstart (rowstart + stride)"
  shows "HorizontalIX_row workview rowbuf stride (interlace_table stride hrz_steps) rowstart besthrz =
    (case best_step rowstart pl besthrz of
       None \<Rightarrow> Inl UnboundLocalError
     | Some best \<Rightarrow>
         Inr (take (rowstart - 1) workview @ candidate best pl @ drop (rowstart + stride) workview,
              (\<lambda>s. if s \<in> set hrz_steps then Some (candidate s pl) else rowbuf s),
              Some best))"
proof -
  have lpl: "length pl = stride" using assms(3,5) by (simp add: length_slice)
  let ?rb = "\<lambda>s. if s \<in> set hrz_steps then Some (candidate s pl) else rowbuf s"
  let ?sel = "select_best (map (\<lambda>s. (s, cost rowstart (candidate s pl))) hrz_steps) 0xFFFF besthrz"
  have cands: "hrz_candidates workview rowstart stride (interlace_table stride hrz_steps) rowbuf =
      Inr ?rb"
    by (rule hrz_candidates_eq [OF assms(1,3,5)])
  have sel: "hrz_select ?rb stride rowstart hrz_steps 0xFFFF besthrz = Inr ?sel"
    by (rule hrz_select_eq) (simp add: lpl)
  obtain bb bh where bb: "?sel = (bb, bh)" by (cases ?sel) auto
  then have bs: "best_step rowstart pl besthrz = bh" by (simp add: best_step_def)
  show ?thesis
  proof (cases bh)
    case None
    with bs show ?thesis
      unfolding HorizontalIX_row_def cands by (simp add: sel bb)
  next
    case (Some best)
    with bs have "best < 81" using best_step_range [OF assms(4)] by simp
    then have inset: "best \<in> set hrz_steps" by (simp add: set_hrz_steps)
    have "length (slice workview (rowstart - 1) (rowstart + stride)) = length (candidate best pl)"
      using assms(2,3) lpl by (simp add: length_slice)
    then have wr: "mv_set_slice workview (rowstart - 1) (rowstart + stride) (candidate best pl) =
        Inr (take (rowstart - 1) workview @ candidate best pl @ drop (rowstart + stride) workview)"
      by (simp add: mv_set_slice_def)
    show ?thesis
      unfolding HorizontalIX_row_def cands
      using wr bs Some by (simp add: sel bb inset)
  qed
qed

subsection \<open>HorizontalIX: all rows\<close>

lemma HorizontalIX_rows_eq:
  assumes "rowbuf_ok stride rowbuf" "1 \<le> rowstart"
    and "rowstart - 1 + n * (stride + 1) \<le> length workview"
    and "\<forall>b. besthrz = Some b \<longrightarrow> b < 81"
  shows "case HorizontalIX_rows stride (interlace_table stride hrz_steps) n rowstart besthrz
           workview rowbuf of
      Inl e \<Rightarrow> hrz_pass stride n rowstart besthrz workview = Inl e
    | Inr (workview', rowbuf') \<Rightarrow>
        hrz_pass stride n rowstart besthrz workview = Inr workview' \<and> rowbuf_ok stride rowbuf'"
  using assms
proof (induction n arbitrary: rowstart besthrz workview rowbuf)
  case 0
  then show ?case by simp
next
  case (Suc n)
  let ?pl = "slice workview rowstart (rowstart + stride)"
  have room: "rowstart + stride \<le> length workview" using Suc.prems(2,3) by simp
  have lpl: "length ?pl = stride" using room by (simp add: length_slice)
  note row = HorizontalIX_row_eq [OF Suc.prems(1,2) room Suc.prems(4) refl]
  show ?case
  proof (cases "best_step rowstart ?pl besthrz")
    case None
    with row show ?thesis by simp
  next
    case (Some best)
    let ?w = "take (rowstart - 1) workview @ candidate best ?pl @ drop (rowstart + stride) workview"
    let ?rb = "\<lambda>s. if s \<in> set hrz_steps then Some (candidate s ?pl) else rowbuf s"
    have best: "best < 81" using best_step_range [OF Suc.prems(4) Some] .
    have lw: "length ?w = length workview" using room Suc.prems(2) lpl by simp
    let ?rec = "HorizontalIX_rows stride (interlace_table stride hrz_steps) n (rowstart + stride + 1)
             (Some best) ?w ?rb"
    have IH: "case ?rec of
        Inl e \<Rightarrow> hrz_pass stride n (rowstart + stride + 1) (Some best) ?w = Inl e
      | Inr (workview', rowbuf') \<Rightarrow>
          hrz_pass stride n (rowstart + stride + 1) (Some best) ?w = Inr workview' \<and>
          rowbuf_ok stride rowbuf'"
      using Suc.prems(2,3) best lw lpl
      by (intro Suc.IH rowbuf_ok_candidates) simp_all
    have step: "HorizontalIX_rows stride (interlace_table stride hrz_steps) (Suc n) rowstart besthrz
        workview rowbuf = ?rec"
      using row Some by simp
    have pass: "hrz_pass stride (Suc n) rowstart besthrz workview =
        hrz_pass stride n (rowstart + stride + 1) (Some best) ?w"
      using Some by simp
    show ?thesis
      unfolding step pass using IH .
  qed
qed

lemma slice_append_drop:
  "length A = d \<Longrightarrow> d \<le> a \<Longrightarrow> slice (A @ drop d w) a b = slice w a b"
  by (simp add: slice_def)

lemma hrz_pass_payloads:
  assumes "length w1 = length w2" "1 \<le> rowstart"
    and "rowstart - 1 + n * (stride + 1) = length w1"
    and "take (rowstart - 1) w1 = take (rowstart - 1) w2"
    and "\<forall>q < n. slice w1 (rowstart + q * (stride + 1)) (rowstart + q * (stride + 1) + stride) =
                  slice w2 (rowstart + q * (stride + 1)) (rowstart + q * (stride + 1) + stride)"
  shows "hrz_pass stride n rowstart besthrz w1 = hrz_pass stride n rowstart besthrz w2"
  using assms
proof (induction n arbitrary: rowstart besthrz w1 w2)
  case 0
  then show ?case by simp
next
  case (Suc n)
  let ?m = "stride + 1"
  let ?pl = "slice w1 rowstart (rowstart + stride)"
  have pl: "slice w2 rowstart (rowstart + stride) = ?pl"
    using Suc.prems(5) by (auto dest: spec [of _ 0])
  have room: "rowstart + stride \<le> length w1" using Suc.prems(2,3) by simp
  have lpl: "length ?pl = stride" using room by (simp add: length_slice)
  show ?case
  proof (cases "best_step rowstart ?pl besthrz")
    case None
    then show ?thesis by (simp add: pl)
  next
    case (Some best)
    let ?A1 = "take (rowstart - 1) w1 @ candidate best ?pl"
    let ?A2 = "take (rowstart - 1) w2 @ candidate best ?pl"
    let ?w1 = "?A1 @ drop (rowstart + stride) w1"
    let ?w2 = "?A2 @ drop (rowstart + stride) w2"
    have lA: "length ?A1 = rowstart + stride" "length ?A2 = rowstart + stride"
      using room Suc.prems(1,2) lpl by simp_all
    have "hrz_pass stride n (rowstart + stride + 1) (Some best) ?w1 =
          hrz_pass stride n (rowstart + stride + 1) (Some best) ?w2"
    proof (rule Suc.IH)
      show "length ?w1 = length ?w2" using Suc.prems(1) lA by simp
      show "1 \<le> rowstart + stride + 1" by simp
      show "rowstart + stride + 1 - 1 + n * (stride + 1) = length ?w1"
        using Suc.prems(2,3) lA room by simp
      show "take (rowstart + stride + 1 - 1) ?w1 = take (rowstart + stride + 1 - 1) ?w2"
        using lA Suc.prems(4) by simp
      show "\<forall>q < n. slice ?w1 (rowstart + stride + 1 + q * ?m) (rowstart + stride + 1 + q * ?m + stride) =
                    slice ?w2 (rowstart + stride + 1 + q * ?m) (rowstart + stride + 1 + q * ?m + stride)"
      proof (intro allI impI)
        fix q assume q: "q < n"
        have e: "rowstart + stride + 1 + q * ?m = rowstart + Suc q * ?m" by simp
        have "slice ?w1 (rowstart + Suc q * ?m) (rowstart + Suc q * ?m + stride) =
              slice w1 (rowstart + Suc q * ?m) (rowstart + Suc q * ?m + stride)"
          using lA(1) by (intro slice_append_drop) simp_all
        moreover have "slice ?w2 (rowstart + Suc q * ?m) (rowstart + Suc q * ?m + stride) =
              slice w2 (rowstart + Suc q * ?m) (rowstart + Suc q * ?m + stride)"
          using lA(2) by (intro slice_append_drop) simp_all
        moreover have "slice w1 (rowstart + Suc q * ?m) (rowstart + Suc q * ?m + stride) =
              slice w2 (rowstart + Suc q * ?m) (rowstart + Suc q * ?m + stride)"
          using Suc.prems(5) q by (auto dest: spec [of _ "Suc q"])
        ultimately show "slice ?w1 (rowstart + stride + 1 + q * ?m) (rowstart + stride + 1 + q * ?m + stride) =
              slice ?w2 (rowstart + stride + 1 + q * ?m) (rowstart + stride + 1 + q * ?m + stride)"
          unfolding e by simp
      qed
    qed
    with Some show ?thesis by (simp add: pl)
  qed
qed

subsection \<open>VerticalIX in closed form\<close>

lemma length_slice_full: "a + n \<le> length xs \<Longrightarrow> length (slice xs a (a + n)) = n"
  by (simp add: length_slice)

lemma length_slice_short:
  "\<not> a + n \<le> length xs \<Longrightarrow> 0 < n \<Longrightarrow> length (slice xs a (a + n)) \<noteq> n"
  by (auto simp: length_slice)

lemma replace_nth_after:
  "length B = n \<Longrightarrow> a + n \<le> length w \<Longrightarrow> a + n \<le> k \<Longrightarrow>
   (take a w @ B @ drop (a + n) w) ! k = w ! k"
  by (auto simp: nth_append)

lemma replace_nth_before:
  "a \<le> length w \<Longrightarrow> k < a \<Longrightarrow> (take a w @ B @ C) ! k = w ! k"
  by (simp add: nth_append)

lemma replace_nth_inside:
  "a \<le> length w \<Longrightarrow> i < length B \<Longrightarrow> (take a w @ B @ C) ! (a + i) = B ! i"
  by (simp add: nth_append)

lemma VerticalIX_copy_eq:
  assumes "writeofs + length rows * (stride + 1) \<le> length workview + 1"
  shows "VerticalIX_copy srcview stride (map Some rows) writeofs workview =
     (if \<forall>r \<in> set rows. r * stride + stride \<le> length srcview
      then Inr (writeofs + length rows * (stride + 1), copy_rows srcview stride rows writeofs workview)
      else Inl ValueError)"
  using assms
proof (induction rows arbitrary: writeofs workview)
  case Nil
  then show ?case by simp
next
  case (Cons r rows)
  let ?src = "slice srcview (r * stride) (r * stride + stride)"
  let ?w = "take writeofs workview @ ?src @ drop (writeofs + stride) workview"
  have room: "writeofs + stride \<le> length workview" using Cons.prems by simp
  have ldst: "length (slice workview writeofs (writeofs + stride)) = stride"
    using room by (simp add: length_slice)
  show ?case
  proof (cases "r * stride + stride \<le> length srcview")
    case True
    then have lsrc: "length ?src = stride" by (rule length_slice_full)
    then have set: "mv_set_slice workview writeofs (writeofs + stride) ?src = Inr ?w"
      using ldst by (simp add: mv_set_slice_def)
    have lw: "length ?w = length workview" using room lsrc by simp
    have "VerticalIX_copy srcview stride (map Some rows) (writeofs + stride + 1) ?w =
       (if \<forall>r \<in> set rows. r * stride + stride \<le> length srcview
        then Inr (writeofs + stride + 1 + length rows * (stride + 1),
                  copy_rows srcview stride rows (writeofs + stride + 1) ?w)
        else Inl ValueError)"
      using Cons.prems lw by (intro Cons.IH) simp
    with True set show ?thesis by (simp add: Let_def)
  next
    case False
    then have "length ?src \<noteq> stride" by (intro length_slice_short) (auto intro: gr0I)
    then have "mv_set_slice workview writeofs (writeofs + stride) ?src = Inl ValueError"
      using ldst by (simp add: mv_set_slice_def)
    with False show ?thesis by (simp add: Let_def)
  qed
qed

lemma length_copy_rows:
  "\<forall>r \<in> set rows. r * stride + stride \<le> length srcview \<Longrightarrow>
   writeofs + length rows * (stride + 1) \<le> length workview + 1 \<Longrightarrow>
   length (copy_rows srcview stride rows writeofs workview) = length workview"
proof (induction rows arbitrary: writeofs workview)
  case Nil
  then show ?case by simp
next
  case (Cons r rows)
  let ?w = "take writeofs workview @ slice srcview (r * stride) (r * stride + stride) @
            drop (writeofs + stride) workview"
  have "length (slice srcview (r * stride) (r * stride + stride)) = stride"
    using Cons.prems(1) by (intro length_slice_full) simp
  then have lw: "length ?w = length workview" using Cons.prems by simp
  have "length (copy_rows srcview stride rows (writeofs + stride + 1) ?w) = length ?w"
    using Cons.prems lw by (intro Cons.IH) simp_all
  with lw show ?case by simp
qed

lemma copy_rows_outside:
  "\<forall>r \<in> set rows. r * stride + stride \<le> length srcview \<Longrightarrow>
   writeofs + length rows * (stride + 1) \<le> length workview + 1 \<Longrightarrow>
   k < writeofs \<Longrightarrow>
   copy_rows srcview stride rows writeofs workview ! k = workview ! k"
proof (induction rows arbitrary: writeofs workview)
  case Nil
  then show ?case by simp
next
  case (Cons r rows)
  let ?w = "take writeofs workview @ slice srcview (r * stride) (r * stride + stride) @
            drop (writeofs + stride) workview"
  have "length (slice srcview (r * stride) (r * stride + stride)) = stride"
    using Cons.prems(1) by (intro length_slice_full) simp
  then have lw: "length ?w = length workview" using Cons.prems by simp
  have "copy_rows srcview stride rows (writeofs + stride + 1) ?w ! k = ?w ! k"
    using Cons.prems lw by (intro Cons.IH) simp_all
  moreover have "?w ! k = workview ! k"
    using Cons.prems(2,3) by (simp add: nth_append)
  ultimately show ?case by simp
qed

lemma copy_rows_nth:
  "\<forall>r \<in> set rows. r * stride + stride \<le> length srcview \<Longrightarrow>
   writeofs + length rows * (stride + 1) \<le> length workview + 1 \<Longrightarrow>
   q < length rows \<Longrightarrow>
   (i < stride \<longrightarrow>
      copy_rows srcview stride rows writeofs workview ! (writeofs + q * (stride + 1) + i) =
      srcview ! (rows ! q * stride + i)) \<and>
   (writeofs + q * (stride + 1) + stride < length workview \<longrightarrow>
      copy_rows srcview stride rows writeofs workview ! (writeofs + q * (stride + 1) + stride) =
      workview ! (writeofs + q * (stride + 1) + stride))"
proof (induction rows arbitrary: writeofs workview q)
  case Nil
  then show ?case by simp
next
  case (Cons r rows)
  let ?src = "slice srcview (r * stride) (r * stride + stride)"
  let ?w = "take writeofs workview @ ?src @ drop (writeofs + stride) workview"
  have room: "writeofs + stride \<le> length workview" using Cons.prems(2) by simp
  have lsrc: "length ?src = stride" using Cons.prems(1) by (intro length_slice_full) simp
  have lw: "length ?w = length workview" using room lsrc by simp
  have pre: "\<forall>r \<in> set rows. r * stride + stride \<le> length srcview"
     "writeofs + stride + 1 + length rows * (stride + 1) \<le> length ?w + 1"
    using Cons.prems(1,2) lw by simp_all
  show ?case
  proof (cases q)
    case 0
    have a: "copy_rows srcview stride rows (writeofs + stride + 1) ?w ! (writeofs + i) =
        ?w ! (writeofs + i)" if "i \<le> stride" for i
      using that by (intro copy_rows_outside pre) simp
    have b: "?w ! (writeofs + i) = srcview ! (r * stride + i)" if "i < stride"
    proof -
      have "?w ! (writeofs + i) = ?src ! i"
        using that room lsrc by (intro replace_nth_inside) simp_all
      also have "\<dots> = srcview ! (r * stride + i)"
        using that Cons.prems(1) by (intro slice_nth) simp_all
      finally show ?thesis .
    qed
    have c: "?w ! (writeofs + stride) = workview ! (writeofs + stride)"
      using room lsrc by (intro replace_nth_after) simp_all
    from 0 a [of i] a [of stride] b c show ?thesis by simp
  next
    case (Suc q')
    then have q': "q' < length rows" using Cons.prems(3) by simp
    let ?base = "writeofs + stride + 1 + q' * (stride + 1)"
    note IH = Cons.IH [OF pre q']
    have e: "writeofs + Suc q' * (stride + 1) = ?base" by simp
    have w: "?w ! (?base + stride) = workview ! (?base + stride)"
      using room lsrc by (intro replace_nth_after) simp_all
    have "(i < stride \<longrightarrow>
        copy_rows srcview stride rows (writeofs + stride + 1) ?w ! (?base + i) =
        srcview ! (rows ! q' * stride + i)) \<and>
       (?base + stride < length workview \<longrightarrow>
        copy_rows srcview stride rows (writeofs + stride + 1) ?w ! (?base + stride) =
        workview ! (?base + stride))"
      using IH unfolding lw w .
    then show ?thesis
      unfolding Suc e by simp
  qed
qed

lemma py_get_in_range:
  "i < length xs \<Longrightarrow> py_get xs (int i) = Inr (xs ! i)"
  by (simp add: py_get_def py_index_def)

lemma py_set_in_range:
  "i < length xs \<Longrightarrow> py_set xs (int i) v = Inr (xs[i := v])"
  by (simp add: py_set_def py_index_def)

lemma VerticalIX_xor_eq:
  assumes "n + stride + 1 \<le> k" "k \<le> length w"
  shows "VerticalIX_xor stride n (int k) w =
     Inr (map (\<lambda>i. if k - n \<le> i \<and> i < k then w ! i XOR w ! (i - (stride + 1)) else w ! i)
            [0..<length w])"
  using assms
proof (induction n arbitrary: k w)
  case 0
  have "map (\<lambda>i. if k - 0 \<le> i \<and> i < k then w ! i XOR w ! (i - (stride + 1)) else w ! i)
            [0..<length w] = w"
    by (intro nth_equalityI) auto
  then show ?case by simp
next
  case (Suc n)
  let ?j = "k - 1"
  let ?w1 = "w[?j := w ! ?j XOR w ! (?j - (stride + 1))]"
  have k: "1 \<le> k" "?j < length w" "stride + 1 \<le> ?j" using Suc.prems by simp_all
  have i1: "int k - 1 = int ?j" using k(1) by simp
  have i2: "int ?j - int stride - 1 = int (?j - (stride + 1))" using k by simp
  have g1: "py_get w (int ?j) = Inr (w ! ?j)" using k by (intro py_get_in_range)
  have g2: "py_get w (int (?j - (stride + 1))) = Inr (w ! (?j - (stride + 1)))"
    using k by (intro py_get_in_range) simp
  have s1: "py_set w (int ?j) (w ! ?j XOR w ! (?j - (stride + 1))) = Inr ?w1"
    using k by (intro py_set_in_range)
  have IH: "VerticalIX_xor stride n (int ?j) ?w1 =
     Inr (map (\<lambda>i. if ?j - n \<le> i \<and> i < ?j then ?w1 ! i XOR ?w1 ! (i - (stride + 1)) else ?w1 ! i)
            [0..<length ?w1])"
    using Suc.prems by (intro Suc.IH) simp_all
  have "map (\<lambda>i. if ?j - n \<le> i \<and> i < ?j then ?w1 ! i XOR ?w1 ! (i - (stride + 1)) else ?w1 ! i)
            [0..<length ?w1] =
        map (\<lambda>i. if k - Suc n \<le> i \<and> i < k then w ! i XOR w ! (i - (stride + 1)) else w ! i)
            [0..<length w]"
    using k Suc.prems by (intro nth_equalityI) (auto simp: nth_list_update)
  with IH have fin: "VerticalIX_xor stride n (int ?j) ?w1 =
     Inr (map (\<lambda>i. if k - Suc n \<le> i \<and> i < k then w ! i XOR w ! (i - (stride + 1)) else w ! i)
            [0..<length w])"
    by simp
  show ?case
    by (simp only: VerticalIX_xor.simps i1 i2 g1 g2 s1 bindE_simps fin)
qed

lemma VerticalIX_unfold:
  "stride = drop_bit 1 w \<Longrightarrow>
   VerticalIX srcview workview w h vrt_list =
     bindE (VerticalIX_copy srcview stride vrt_list 1 workview) (\<lambda>(writeofs, workview').
       if h = 1 then Inr workview'
       else VerticalIX_xor stride ((stride + 1) * (h - 1)) (int writeofs - 1) workview')"
  by (simp only: VerticalIX_def Let_def)

lemma xor_rows_single: "length c \<le> stride + 1 \<Longrightarrow> xor_rows stride c = c"
  unfolding xor_rows_def by (intro nth_equalityI) auto

lemma VerticalIX_eq:
  assumes "length workview = h * (stride + 1)" "length rows = h" "stride = drop_bit 1 w"
  shows "VerticalIX srcview workview w h (map Some rows) =
     (if \<forall>r \<in> set rows. r * stride + stride \<le> length srcview
      then Inr (xor_rows stride (copy_rows srcview stride rows 1 workview))
      else Inl ValueError)"
proof -
  let ?c = "copy_rows srcview stride rows 1 workview"
  have copy: "VerticalIX_copy srcview stride (map Some rows) 1 workview =
     (if \<forall>r \<in> set rows. r * stride + stride \<le> length srcview
      then Inr (1 + length rows * (stride + 1), ?c) else Inl ValueError)"
    using assms(1,2) by (intro VerticalIX_copy_eq) simp
  show ?thesis
  proof (cases "\<forall>r \<in> set rows. r * stride + stride \<le> length srcview")
    case False
    then have c: "(\<forall>r \<in> set rows. r * stride + stride \<le> length srcview) = False" by simp
    show ?thesis
      unfolding VerticalIX_unfold [OF assms(3)] copy by (simp only: c if_False bindE_simps)
  next
    case True
    have lc: "length ?c = h * (stride + 1)"
      using True assms(1,2) by (simp add: length_copy_rows)
    have x: "(if h = 1 then Inr ?c
              else VerticalIX_xor stride ((stride + 1) * (h - 1)) (int (1 + length rows * (stride + 1)) - 1) ?c) =
             Inr (xor_rows stride ?c)"
    proof (cases "h \<le> 1")
      case le: True
      then have single: "xor_rows stride ?c = ?c"
        using lc by (intro xor_rows_single) (cases h, simp_all)
      show ?thesis
      proof (cases "h = 1")
        case True
        with single show ?thesis by simp
      next
        case False
        with le have "h = 0" by simp
        with single show ?thesis by simp
      qed
    next
      case False
      then have h: "2 \<le> h" by simp
      let ?n = "(stride + 1) * (h - 1)"
      let ?k = "h * (stride + 1)"
      have kn: "?n + stride + 1 = ?k"
        using h by (cases h) simp_all
      then have diff: "?k - ?n = stride + 1" by linarith
      have "VerticalIX_xor stride ?n (int ?k) ?c =
        Inr (map (\<lambda>i. if ?k - ?n \<le> i \<and> i < ?k then ?c ! i XOR ?c ! (i - (stride + 1)) else ?c ! i)
          [0..<length ?c])"
        using kn lc by (intro VerticalIX_xor_eq) simp_all
      also have "map (\<lambda>i. if ?k - ?n \<le> i \<and> i < ?k then ?c ! i XOR ?c ! (i - (stride + 1)) else ?c ! i)
          [0..<length ?c] = xor_rows stride ?c"
        unfolding xor_rows_def diff using lc by (intro map_cong) simp_all
      finally have "VerticalIX_xor stride ?n (int ?k) ?c = Inr (xor_rows stride ?c)" .
      moreover have "int (1 + length rows * (stride + 1)) - 1 = int ?k"
        using assms(2) by simp
      ultimately show ?thesis using h by simp
    qed
    from True have c: "(\<forall>r \<in> set rows. r * stride + stride \<le> length srcview) = True" by simp
    show ?thesis
      unfolding VerticalIX_unfold [OF assms(3)] copy
      by (simp only: c if_True bindE_simps prod.case x)
  qed
qed

lemma length_xor_rows [simp]: "length (xor_rows stride w) = length w"
  by (simp add: xor_rows_def)

lemma xor_rows_nth:
  "k < length w \<Longrightarrow>
   xor_rows stride w ! k = (if stride + 1 \<le> k then w ! k XOR w ! (k - (stride + 1)) else w ! k)"
  by (simp add: xor_rows_def)

lemma row_index_less:
  fixes q h i stride :: nat
  assumes "q < h" "i \<le> stride"
  shows "q * (stride + 1) + i < h * (stride + 1)"
proof -
  from assms(1) have "Suc q \<le> h" by simp
  then have "Suc q * (stride + 1) \<le> h * (stride + 1)" by (rule mult_le_mono1)
  with assms(2) show ?thesis by simp
qed

lemma copy_rows_payload:
  assumes "length workview = h * (stride + 1)" "length rows = h"
    and "\<forall>r \<in> set rows. r * stride + stride \<le> length srcview" "q < h" "i < stride"
  shows "copy_rows srcview stride rows 1 workview ! (q * (stride + 1) + 1 + i) =
         srcview ! (rows ! q * stride + i)"
proof -
  have "copy_rows srcview stride rows 1 workview ! (1 + q * (stride + 1) + i) =
        srcview ! (rows ! q * stride + i)"
    using copy_rows_nth [of rows stride srcview 1 workview q i] assms by simp
  then show ?thesis by (simp add: ac_simps)
qed

lemma copy_rows_marker:
  assumes "length workview = h * (stride + 1)" "length rows = h"
    and "\<forall>r \<in> set rows. r * stride + stride \<le> length srcview" "q < h"
  shows "copy_rows srcview stride rows 1 workview ! (q * (stride + 1)) = workview ! (q * (stride + 1))"
proof (cases q)
  case 0
  then show ?thesis
    using copy_rows_outside [of rows stride srcview 1 workview 0] assms by simp
next
  case (Suc q')
  have lt: "Suc q' * (stride + 1) + 0 < h * (stride + 1)"
    using assms(4) Suc by (intro row_index_less) simp_all
  have e: "1 + q' * (stride + 1) + stride = Suc q' * (stride + 1)" by simp
  have "copy_rows srcview stride rows 1 workview ! (1 + q' * (stride + 1) + stride) =
        workview ! (1 + q' * (stride + 1) + stride)"
    using copy_rows_nth [of rows stride srcview 1 workview q' 0] assms Suc lt
    unfolding e by simp
  then show ?thesis unfolding e Suc .
qed

lemma VerticalIX_payload:
  assumes "length workview = h * (stride + 1)" "length rows = h"
    and "\<forall>r \<in> set rows. r * stride + stride \<le> length srcview" "q < h" "i < stride"
  shows "xor_rows stride (copy_rows srcview stride rows 1 workview) ! (q * (stride + 1) + 1 + i) =
     (if q = 0 then srcview ! (rows ! 0 * stride + i)
      else srcview ! (rows ! q * stride + i) XOR srcview ! (rows ! (q - 1) * stride + i))"
proof -
  let ?c = "copy_rows srcview stride rows 1 workview"
  let ?k = "q * (stride + 1) + 1 + i"
  have lc: "length ?c = h * (stride + 1)"
    using assms(1,2,3) by (simp add: length_copy_rows)
  have "q * (stride + 1) + (1 + i) < h * (stride + 1)"
    using assms(4,5) by (intro row_index_less) simp_all
  then have k: "?k < length ?c" using lc by (simp add: ac_simps)
  note x = xor_rows_nth [OF k, of stride]
  note p = copy_rows_payload [OF assms(1,2,3)]
  show ?thesis
  proof (cases "q = 0")
    case True
    then have "\<not> stride + 1 \<le> ?k" using assms(5) by simp
    with x have "xor_rows stride ?c ! ?k = ?c ! ?k" by (simp only: if_False)
    also have "\<dots> = srcview ! (rows ! q * stride + i)" by (rule p [OF assms(4,5)])
    finally show ?thesis using True by simp
  next
    case False
    then have ge: "stride + 1 \<le> ?k" by (cases q) simp_all
    have e: "?k - (stride + 1) = (q - 1) * (stride + 1) + 1 + i"
      using False by (cases q) simp_all
    have q': "q - 1 < h" using assms(4) by simp
    from x ge have "xor_rows stride ?c ! ?k = ?c ! ?k XOR ?c ! (?k - (stride + 1))"
      by (simp only: if_True)
    also have "?c ! ?k = srcview ! (rows ! q * stride + i)" by (rule p [OF assms(4,5)])
    also have "?c ! (?k - (stride + 1)) = srcview ! (rows ! (q - 1) * stride + i)"
      unfolding e by (rule p [OF q' assms(5)])
    finally show ?thesis using False by (simp only: if_False)
  qed
qed

lemma VerticalIX_marker:
  assumes "length workview = h * (stride + 1)" "length rows = h"
    and "\<forall>r \<in> set rows. r * stride + stride \<le> length srcview" "q < h"
  shows "xor_rows stride (copy_rows srcview stride rows 1 workview) ! (q * (stride + 1)) =
     (if q = 0 then workview ! 0
      else workview ! (q * (stride + 1)) XOR workview ! ((q - 1) * (stride + 1)))"
proof -
  let ?c = "copy_rows srcview stride rows 1 workview"
  let ?k = "q * (stride + 1)"
  have lc: "length ?c = h * (stride + 1)"
    using assms(1,2,3) by (simp add: length_copy_rows)
  have "q * (stride + 1) + 0 < h * (stride + 1)"
    using assms(4) by (intro row_index_less) simp_all
  then have k: "?k < length ?c" using lc by simp
  note x = xor_rows_nth [OF k, of stride]
  note p = copy_rows_marker [OF assms(1,2,3)]
  show ?thesis
  proof (cases "q = 0")
    case True
    then have "\<not> stride + 1 \<le> ?k" by simp
    with x have "xor_rows stride ?c ! ?k = ?c ! ?k" by (simp only: if_False)
    also have "\<dots> = workview ! ?k" by (rule p [OF assms(4)])
    finally show ?thesis using True by simp
  next
    case False
    then have ge: "stride + 1 \<le> ?k" by (cases q) simp_all
    have e: "?k - (stride + 1) = (q - 1) * (stride + 1)"
      using False by (cases q) simp_all
    have q': "q - 1 < h" using assms(4) by simp
    from x ge have "xor_rows stride ?c ! ?k = ?c ! ?k XOR ?c ! (?k - (stride + 1))"
      by (simp only: if_True)
    also have "?c ! ?k = workview ! ?k" by (rule p [OF assms(4)])
    also have "?c ! (?k - (stride + 1)) = workview ! ((q - 1) * (stride + 1))"
      unfolding e by (rule p [OF q'])
    finally show ?thesis using False by (simp only: if_False)
  qed
qed

lemma VerticalIX_payload_slices:
  assumes "length w1 = h * (stride + 1)" "length w2 = h * (stride + 1)" "length rows = h"
    and "\<forall>r \<in> set rows. r * stride + stride \<le> length srcview" "q < h"
  shows "slice (xor_rows stride (copy_rows srcview stride rows 1 w1))
           (1 + q * (stride + 1)) (1 + q * (stride + 1) + stride) =
         slice (xor_rows stride (copy_rows srcview stride rows 1 w2))
           (1 + q * (stride + 1)) (1 + q * (stride + 1) + stride)"
proof -
  let ?r1 = "xor_rows stride (copy_rows srcview stride rows 1 w1)"
  let ?r2 = "xor_rows stride (copy_rows srcview stride rows 1 w2)"
  let ?a = "1 + q * (stride + 1)"
  have l1: "length ?r1 = h * (stride + 1)" using assms(1,3,4) by (simp add: length_copy_rows)
  have l2: "length ?r2 = h * (stride + 1)" using assms(2,3,4) by (simp add: length_copy_rows)
  have "q * (stride + 1) + stride < h * (stride + 1)"
    using assms(5) by (intro row_index_less) simp_all
  then have room: "?a + stride \<le> h * (stride + 1)" by simp
  show ?thesis
  proof (rule nth_equalityI)
    show "length (slice ?r1 ?a (?a + stride)) = length (slice ?r2 ?a (?a + stride))"
      using l1 l2 room by (simp add: length_slice)
  next
    fix i assume "i < length (slice ?r1 ?a (?a + stride))"
    then have i: "i < stride" using l1 room by (simp add: length_slice)
    have "slice ?r1 ?a (?a + stride) ! i = ?r1 ! (?a + i)"
      using i l1 room by (intro slice_nth) simp_all
    moreover have "slice ?r2 ?a (?a + stride) ! i = ?r2 ! (?a + i)"
      using i l2 room by (intro slice_nth) simp_all
    moreover have "?r1 ! (q * (stride + 1) + 1 + i) = ?r2 ! (q * (stride + 1) + 1 + i)"
      unfolding VerticalIX_payload [OF assms(1,3,4,5) i] VerticalIX_payload [OF assms(2,3,4,5) i] ..
    ultimately show "slice ?r1 ?a (?a + stride) ! i = slice ?r2 ?a (?a + stride) ! i"
      by (simp add: ac_simps)
  qed
qed

subsection \<open>Encode does not read what the destination held\<close>

lemma rel_bindE:
  assumes "rel_sum (=) R m1 m2" "\<And>x y. R x y \<Longrightarrow> rel_sum (=) S (f x) (g y)"
  shows "rel_sum (=) S (bindE m1 f) (bindE m2 g)"
  using assms by (cases m1; cases m2) simp_all

lemma agree_from_update:
  assumes "agree_from n wo f1 f2" "py_index (length f1) (wo - 1) = Inr k"
  shows "agree_from n (wo - 1) (f1[k := v]) (f2[k := v])"
proof -
  have len: "length f1 = length f2" "length f1 = n" using assms(1) by (simp_all add: agree_from_def)
  have k: "k < length f1" using assms(2) by (auto simp: py_index_def split: if_splits)
  have "f1[k := v] ! j = f2[k := v] ! j" if "j < length f1" "wo - 1 \<le> int j" for j
  proof (cases "j = k")
    case True
    with k len show ?thesis by simp
  next
    case False
    have "wo \<le> int j"
    proof (cases "0 \<le> wo - 1")
      case True
      with assms(2) have "k = nat (wo - 1)" by (auto simp: py_index_def split: if_splits)
      with False that(2) True show ?thesis by auto
    next
      case False
      then have "wo \<le> 0" by simp
      then show ?thesis by simp
    qed
    with assms(1) that(1) len have "f1 ! j = f2 ! j" by (simp add: agree_from_def)
    with False show ?thesis by simp
  qed
  with len show ?thesis by (simp add: agree_from_def)
qed

lemma py_set_agree:
  assumes "agree_from n wo f1 f2"
  shows "rel_sum (=) (agree_from n (wo - 1)) (py_set f1 (wo - 1) v) (py_set f2 (wo - 1) v)"
proof -
  have len: "length f1 = length f2" using assms by (simp add: agree_from_def)
  show ?thesis
  proof (cases "py_index (length f1) (wo - 1)")
    case (Inl e)
    with len show ?thesis by (simp add: py_set_def)
  next
    case (Inr k)
    with len agree_from_update [OF assms Inr, of v] show ?thesis by (simp add: py_set_def)
  qed
qed

lemma mv_store_agree:
  assumes "agree_from n wo f1 f2"
  shows "rel_sum (=) (agree_from n (wo - 1)) (mv_store f1 (wo - 1) v) (mv_store f2 (wo - 1) v)"
proof -
  have len: "length f1 = length f2" using assms by (simp add: agree_from_def)
  show ?thesis
  proof (cases "py_index (length f1) (wo - 1)")
    case (Inl e)
    with len show ?thesis by (simp add: mv_store_def)
  next
    case (Inr k)
    show ?thesis
    proof (cases "to_byte v")
      case (Inl e)
      with Inr len show ?thesis by (simp add: mv_store_def)
    next
      case b: (Inr b)
      with Inr len agree_from_update [OF assms Inr, of b] show ?thesis by (simp add: mv_store_def)
    qed
  qed
qed

lemma Encode_literal_agree:
  assumes "agree_from n wo f1 f2"
  shows "rel_sum (=) (\<lambda>(b1, w1, g1) (b2, w2, g2). b1 = b2 \<and> w1 = w2 \<and> agree_from n w1 g1 g2)
           (Encode_literal ws r fb wo f1) (Encode_literal ws r fb wo f2)"
proof (cases "list_get ws r")
  case (Inl e)
  then show ?thesis by (simp add: Encode_literal_def)
next
  case (Inr b)
  show ?thesis
  proof (cases "b = 0")
    case True
    with Inr assms show ?thesis by (simp add: Encode_literal_def)
  next
    case False
    have "rel_sum (=) (\<lambda>(b1, w1, g1) (b2, w2, g2). b1 = b2 \<and> w1 = w2 \<and> agree_from n w1 g1 g2)
        (bindE (py_set f1 (wo - 1) b) (\<lambda>g. Inr (fb OR 0x80, wo - 1, g)))
        (bindE (py_set f2 (wo - 1) b) (\<lambda>g. Inr (fb OR 0x80, wo - 1, g)))"
      by (rule rel_bindE [OF py_set_agree [OF assms]]) simp
    with Inr False show ?thesis by (simp add: Encode_literal_def)
  qed
qed

lemma Encode_flags_agree:
  assumes "agree_from n wo f1 f2"
  shows "rel_sum (=)
           (\<lambda>(a1, w1, al1, bl1, g1) (a2, w2, al2, bl2, g2).
              a1 = a2 \<and> w1 = w2 \<and> al1 = al2 \<and> bl1 = bl2 \<and> agree_from n w1 g1 g2)
           (Encode_flags fa fb wo al bl f1) (Encode_flags fa fb wo al bl f2)"
proof (cases "bl - 1 = 0")
  case False
  with assms show ?thesis by (simp add: Encode_flags_def)
next
  case True
  let ?R = "\<lambda>(a1, w1, g1) (a2, w2, g2). a1 = a2 \<and> w1 = w2 \<and> agree_from n w1 g1 (g2 :: byte list)"
  let ?m = "\<lambda>f. if fb \<noteq> 0 then
             bindE (mv_store f (wo - 1) fb) (\<lambda>g. Inr (drop_bit 1 fa OR 0x80, wo - 1, g))
           else Inr (drop_bit 1 fa, wo, f)"
  let ?k = "\<lambda>(flagA', writeofs', finalview').
             if al - 1 = 0 then
               bindE (mv_store finalview' (writeofs' - 1) flagA') (\<lambda>finalview''.
                 Inr (flagA', writeofs' - 1, 8, 8, finalview''))
             else Inr (flagA', writeofs', al - 1, 8 :: int, finalview')"
  have m: "rel_sum (=) ?R (?m f1) (?m f2)"
  proof (cases "fb \<noteq> 0")
    case True
    have "rel_sum (=) ?R
        (bindE (mv_store f1 (wo - 1) fb) (\<lambda>g. Inr (drop_bit 1 fa OR 0x80, wo - 1, g)))
        (bindE (mv_store f2 (wo - 1) fb) (\<lambda>g. Inr (drop_bit 1 fa OR 0x80, wo - 1, g)))"
      by (rule rel_bindE [OF mv_store_agree [OF assms]]) simp
    with True show ?thesis by simp
  next
    case False
    with assms show ?thesis by simp
  qed
  have "rel_sum (=)
           (\<lambda>(a1, w1, al1, bl1, g1) (a2, w2, al2, bl2, g2).
              a1 = a2 \<and> w1 = w2 \<and> al1 = al2 \<and> bl1 = bl2 \<and> agree_from n w1 g1 g2)
           (bindE (?m f1) ?k) (bindE (?m f2) ?k)"
  proof (rule rel_bindE [OF m])
    fix x y :: "int \<times> int \<times> byte list"
    assume R: "?R x y"
    obtain a w g1 where x: "x = (a, w, g1)" by (cases x) auto
    obtain a' w' g2 where y: "y = (a', w', g2)" by (cases y) auto
    from R x y have eq: "a' = a" "w' = w" and ag: "agree_from n w g1 g2" by auto
    show "rel_sum (=)
           (\<lambda>(a1, w1, al1, bl1, g1) (a2, w2, al2, bl2, g2).
              a1 = a2 \<and> w1 = w2 \<and> al1 = al2 \<and> bl1 = bl2 \<and> agree_from n w1 g1 g2)
           (?k x) (?k y)"
    proof (cases "al - 1 = 0")
      case True
      have "rel_sum (=)
           (\<lambda>(a1, w1, al1, bl1, g1) (a2, w2, al2, bl2, g2).
              a1 = a2 \<and> w1 = w2 \<and> al1 = al2 \<and> bl1 = bl2 \<and> agree_from n w1 g1 g2)
           (bindE (mv_store g1 (w - 1) a) (\<lambda>g. Inr (a, w - 1, 8, 8 :: int, g)))
           (bindE (mv_store g2 (w - 1) a) (\<lambda>g. Inr (a, w - 1, 8, 8 :: int, g)))"
        by (rule rel_bindE [OF mv_store_agree [OF ag]]) simp
      with True x y eq show ?thesis by simp
    next
      case False
      with x y eq ag show ?thesis by simp
    qed
  qed
  with True show ?thesis by (simp add: Encode_flags_def)
qed

lemma Encode_loop_agree:
  "agree_from n wo f1 f2 \<Longrightarrow>
   rel_sum (=) (\<lambda>(w1, g1) (w2, g2). w1 = w2 \<and> agree_from n w1 g1 g2)
     (Encode_loop ws r fa fb wo al bl f1) (Encode_loop ws r fa fb wo al bl f2)"
proof (induction r arbitrary: fa fb wo al bl f1 f2)
  case 0
  then show ?case by simp
next
  case (Suc r)
  show ?case
    unfolding Encode_loop.simps
  proof (rule rel_bindE [OF Encode_literal_agree [OF Suc.prems]])
    fix x y :: "int \<times> int \<times> byte list"
    assume R: "(\<lambda>(b1, w1, g1) (b2, w2, g2). b1 = b2 \<and> w1 = w2 \<and> agree_from n w1 g1 g2) x y"
    obtain b w g1 where x: "x = (b, w, g1)" by (cases x) auto
    obtain b' w' g2 where y: "y = (b', w', g2)" by (cases y) auto
    from R x y have eq: "b' = b" "w' = w" and ag: "agree_from n w g1 g2" by auto
    have "rel_sum (=) (\<lambda>(w1, g1) (w2, g2). w1 = w2 \<and> agree_from n w1 g1 g2)
       (bindE (Encode_flags fa b w al bl g1)
          (\<lambda>(flagA', writeofs'', flagAbitsleft', flagBbitsleft', finalview'').
             Encode_loop ws r flagA' b writeofs'' flagAbitsleft' flagBbitsleft' finalview''))
       (bindE (Encode_flags fa b w al bl g2)
          (\<lambda>(flagA', writeofs'', flagAbitsleft', flagBbitsleft', finalview'').
             Encode_loop ws r flagA' b writeofs'' flagAbitsleft' flagBbitsleft' finalview''))"
    proof (rule rel_bindE [OF Encode_flags_agree [OF ag]])
      fix u v :: "int \<times> int \<times> int \<times> int \<times> byte list"
      assume R2: "(\<lambda>(a1, w1, al1, bl1, g1) (a2, w2, al2, bl2, g2).
              a1 = a2 \<and> w1 = w2 \<and> al1 = al2 \<and> bl1 = bl2 \<and> agree_from n w1 g1 g2) u v"
      obtain a1 w1 al1 bl1 h1 where u: "u = (a1, w1, al1, bl1, h1)" by (cases u) auto
      obtain a2 w2 al2 bl2 h2 where v: "v = (a2, w2, al2, bl2, h2)" by (cases v) auto
      from R2 u v have e2: "a2 = a1" "w2 = w1" "al2 = al1" "bl2 = bl1" and ag2: "agree_from n w1 h1 h2"
        by auto
      from Suc.IH [OF ag2] u v e2
      show "rel_sum (=) (\<lambda>(w1, g1) (w2, g2). w1 = w2 \<and> agree_from n w1 g1 g2)
          ((\<lambda>(flagA', writeofs'', flagAbitsleft', flagBbitsleft', finalview'').
             Encode_loop ws r flagA' b writeofs'' flagAbitsleft' flagBbitsleft' finalview'') u)
          ((\<lambda>(flagA', writeofs'', flagAbitsleft', flagBbitsleft', finalview'').
             Encode_loop ws r flagA' b writeofs'' flagAbitsleft' flagBbitsleft' finalview'') v)"
        by simp
    qed
    with x y eq show "rel_sum (=) (\<lambda>(w1, g1) (w2, g2). w1 = w2 \<and> agree_from n w1 g1 g2)
       ((\<lambda>(flagB', writeofs', finalview').
          bindE (Encode_flags fa flagB' writeofs' al bl finalview')
            (\<lambda>(flagA', writeofs'', flagAbitsleft', flagBbitsleft', finalview'').
               Encode_loop ws r flagA' flagB' writeofs'' flagAbitsleft' flagBbitsleft'
                 finalview'')) x)
       ((\<lambda>(flagB', writeofs', finalview').
          bindE (Encode_flags fa flagB' writeofs' al bl finalview')
            (\<lambda>(flagA', writeofs'', flagAbitsleft', flagBbitsleft', finalview'').
               Encode_loop ws r flagA' flagB' writeofs'' flagAbitsleft' flagBbitsleft'
                 finalview'')) y)"
      by simp
  qed
qed

lemma Encode_agree:
  assumes "length f1 = length f2"
  shows "rel_sum (=) (\<lambda>(w1, g1) (w2, g2). w1 = w2 \<and> agree_from (length f1) w1 g1 g2)
     (Encode ws f1) (Encode ws f2)"
proof -
  have "agree_from (length f1) (int (length f1)) f1 f2" using assms by (simp add: agree_from_def)
  from Encode_loop_agree [OF this] assms show ?thesis
    by (simp add: Encode_def Let_def)
qed

lemma py_slice_from_agree:
  assumes "agree_from n wo f1 f2"
  shows "py_slice_from f1 wo = py_slice_from f2 wo"
proof -
  have len: "length f1 = length f2" using assms by (simp add: agree_from_def)
  show ?thesis
  proof (cases "wo < 0")
    case True
    then have "f1 = f2" using assms by (intro nth_equalityI) (auto simp: agree_from_def)
    then show ?thesis by simp
  next
    case False
    have "drop (nat wo) f1 = drop (nat wo) f2"
      using assms False len by (intro nth_equalityI) (auto simp: agree_from_def)
    with False show ?thesis by (simp add: py_slice_from_def)
  qed
qed

subsection \<open>Compress: a trial does not depend on the buffers it is given\<close>

lemma rowbuf_init_eq:
  "\<forall>s \<in> set hrzs. s < 256 \<Longrightarrow>
   rowbuf_init stride hrzs rowbuf =
     Inr (\<lambda>s. if s \<in> set hrzs then Some (of_nat s # replicate stride 0) else rowbuf s)"
proof (induction hrzs arbitrary: rowbuf)
  case Nil
  then show ?case by simp
next
  case (Cons hrz hrzs)
  have "mv_store (replicate (stride + 1) 0) 0 (int hrz) = Inr (of_nat hrz # replicate stride 0)"
    using Cons.prems by (simp add: mv_store_def py_index_def to_byte_def)
  moreover have "rowbuf_init stride hrzs (rowbuf(hrz \<mapsto> of_nat hrz # replicate stride 0)) =
     Inr (\<lambda>s. if s \<in> set hrzs then Some (of_nat s # replicate stride 0)
              else (rowbuf(hrz \<mapsto> of_nat hrz # replicate stride 0)) s)"
    using Cons.prems by (intro Cons.IH) simp
  moreover have "(\<lambda>s. if s \<in> set hrzs then Some (of_nat s # replicate stride 0)
              else (rowbuf(hrz \<mapsto> of_nat hrz # replicate stride 0)) s) =
      (\<lambda>s. if s \<in> set (hrz # hrzs) then Some (of_nat s # replicate stride (0::byte)) else rowbuf s)"
    by (auto simp: fun_eq_iff)
  ultimately show ?case by simp
qed

lemma rowbuf_init_ok:
  "\<exists>rowbuf. rowbuf_init stride hrz_steps Map.empty = Inr rowbuf \<and> rowbuf_ok stride rowbuf"
proof -
  have "\<forall>s \<in> set hrz_steps. s < 256" by (simp add: set_hrz_steps)
  from rowbuf_init_eq [OF this, of stride Map.empty] show ?thesis
    by (simp add: rowbuf_ok_def)
qed

lemma length_hrz_pass:
  "hrz_pass stride n rowstart besthrz w = Inr w' \<Longrightarrow> 1 \<le> rowstart \<Longrightarrow>
   rowstart - 1 + n * (stride + 1) \<le> length w \<Longrightarrow> length w' = length w"
proof (induction n arbitrary: rowstart besthrz w)
  case 0
  then show ?case by simp
next
  case (Suc n)
  let ?pl = "slice w rowstart (rowstart + stride)"
  have room: "rowstart + stride \<le> length w" using Suc.prems(2,3) by simp
  have lpl: "length ?pl = stride" using room by (simp add: length_slice)
  from Suc.prems(1) obtain best where best: "best_step rowstart ?pl besthrz = Some best"
    by (cases "best_step rowstart ?pl besthrz") simp_all
  let ?w = "take (rowstart - 1) w @ candidate best ?pl @ drop (rowstart + stride) w"
  have lw: "length ?w = length w" using room Suc.prems(2) lpl by simp
  have rec: "hrz_pass stride n (rowstart + stride + 1) (Some best) ?w = Inr w'"
    using Suc.prems(1) best by simp
  have "length w' = length ?w"
  proof (rule Suc.IH [OF rec])
    show "1 \<le> rowstart + stride + 1" by simp
    show "rowstart + stride + 1 - 1 + n * (stride + 1) \<le> length ?w"
      using Suc.prems(2,3) unfolding lw by simp
  qed
  with lw show ?case by simp
qed

lemma HorizontalIX_eq:
  assumes "rowbuf_ok stride rowbuf" "length workview = h * (stride + 1)" "stride = drop_bit 1 w"
  shows "rel_sum (=) (\<lambda>(workview', rowbuf') work.
            workview' = work \<and> length workview' = h * (stride + 1) \<and> rowbuf_ok stride rowbuf')
     (HorizontalIX workview rowbuf w h (interlace_table stride hrz_steps))
     (hrz_pass stride h 1 None workview)"
proof -
  let ?H = "HorizontalIX_rows stride (interlace_table stride hrz_steps) h 1 None workview rowbuf"
  have H: "HorizontalIX workview rowbuf w h (interlace_table stride hrz_steps) = ?H"
    by (simp only: HorizontalIX_def assms(3))
  have c: "case ?H of
      Inl e \<Rightarrow> hrz_pass stride h 1 None workview = Inl e
    | Inr (workview', rowbuf') \<Rightarrow>
        hrz_pass stride h 1 None workview = Inr workview' \<and> rowbuf_ok stride rowbuf'"
    using assms(1,2) by (intro HorizontalIX_rows_eq) simp_all
  show ?thesis
  proof (cases ?H)
    case (Inl e)
    with c H show ?thesis by simp
  next
    case (Inr x)
    obtain workview' rowbuf' where x: "x = (workview', rowbuf')" by (cases x) auto
    with c Inr have p: "hrz_pass stride h 1 None workview = Inr workview'" "rowbuf_ok stride rowbuf'"
      by simp_all
    have "length workview' = length workview"
      using assms(2) by (intro length_hrz_pass [OF p(1)]) simp_all
    with p x Inr H assms(2) show ?thesis by simp
  qed
qed

lemma trial_work_eq:
  assumes "length workbuf = h * (stride + 1)" "0 < vrt"
  shows "bindE (if \<forall>r \<in> set (interlace h vrt). r * stride + stride \<le> length srcview
                then Inr (xor_rows stride (copy_rows srcview stride (interlace h vrt) 1 workbuf))
                else Inl ValueError)
           (hrz_pass stride h 1 None) =
         trial_work srcview stride h vrt"
proof (cases "\<forall>r \<in> set (interlace h vrt). r * stride + stride \<le> length srcview")
  case False
  then have c: "(\<forall>r \<in> set (interlace h vrt). r * stride + stride \<le> length srcview) = False" by simp
  show ?thesis by (simp only: trial_work_def c if_False bindE_simps)
next
  case True
  then have c: "(\<forall>r \<in> set (interlace h vrt). r * stride + stride \<le> length srcview) = True" by simp
  let ?rows = "interlace h vrt"
  let ?z = "replicate (h * (stride + 1)) (0::byte)"
  let ?v1 = "xor_rows stride (copy_rows srcview stride ?rows 1 workbuf)"
  let ?v2 = "xor_rows stride (copy_rows srcview stride ?rows 1 ?z)"
  have lr: "length ?rows = h" by (rule length_interlace [OF assms(2)])
  have l1: "length ?v1 = h * (stride + 1)"
    using True assms(1) lr by (simp add: length_copy_rows)
  have l2: "length ?v2 = h * (stride + 1)"
    using True lr by (simp add: length_copy_rows)
  have "hrz_pass stride h 1 None ?v1 = hrz_pass stride h 1 None ?v2"
  proof (rule hrz_pass_payloads)
    show "length ?v1 = length ?v2" using l1 l2 by simp
    show "(1::nat) \<le> 1" by simp
    show "1 - 1 + h * (stride + 1) = length ?v1" using l1 by simp
    show "take (1 - 1) ?v1 = take (1 - 1) ?v2" by simp
    show "\<forall>q < h. slice ?v1 (1 + q * (stride + 1)) (1 + q * (stride + 1) + stride) =
                  slice ?v2 (1 + q * (stride + 1)) (1 + q * (stride + 1) + stride)"
      using VerticalIX_payload_slices [OF assms(1) _ lr True, of ?z] by simp
  qed
  then show ?thesis by (simp only: trial_work_def c if_True bindE_simps)
qed

lemma Compress_trial_eq:
  assumes "stride = drop_bit 1 w" "length workbuf = h * (stride + 1)" "rowbuf_ok stride rowbuf"
    and "0 < vrt" "vrt \<in> set steps"
  shows "rel_sum (=)
     (\<lambda>(writeofs, workbuf', rowbuf', finalbuf') (writeofs2, finalbuf2).
        writeofs = writeofs2 \<and> finalbuf' = finalbuf2 \<and>
        length workbuf' = h * (stride + 1) \<and> rowbuf_ok stride rowbuf')
     (Compress_trial srcview w h (interlace_table h steps) (interlace_table stride hrz_steps) vrt
        (workbuf, rowbuf, finalbuf))
     (bindE (trial_work srcview stride h vrt) (\<lambda>work. Encode work finalbuf))"
proof -
  let ?rows = "interlace h vrt"
  let ?V = "if \<forall>r \<in> set ?rows. r * stride + stride \<le> length srcview
            then Inr (xor_rows stride (copy_rows srcview stride ?rows 1 workbuf))
            else Inl ValueError"
  have tab: "interlace_table h steps vrt = Some (map Some ?rows)"
    using assms(4,5) by (simp add: interlace_table_def)
  have lr: "length ?rows = h" by (rule length_interlace [OF assms(4)])
  have V: "VerticalIX srcview workbuf w h (map Some ?rows) = ?V"
    by (rule VerticalIX_eq [OF assms(2) lr assms(1)])
  have tw: "trial_work srcview stride h vrt = bindE ?V (hrz_pass stride h 1 None)"
    by (rule trial_work_eq [OF assms(2,4), symmetric])
  have unfold: "Compress_trial srcview w h (interlace_table h steps) (interlace_table stride hrz_steps) vrt
        (workbuf, rowbuf, finalbuf) =
      bindE ?V (\<lambda>workbuf'.
        bindE (HorizontalIX workbuf' rowbuf w h (interlace_table stride hrz_steps)) (\<lambda>(workbuf'', rowbuf').
          bindE (Encode workbuf'' finalbuf) (\<lambda>(writeofs, finalbuf').
            Inr (writeofs, workbuf'', rowbuf', finalbuf'))))"
    by (simp only: Compress_trial_def prod.case tab option.case V)
  show ?thesis
  proof (cases ?V)
    case (Inl e)
    then show ?thesis unfolding unfold tw by simp
  next
    case (Inr v)
    have lv: "length v = h * (stride + 1)"
    proof -
      from Inr have "v = xor_rows stride (copy_rows srcview stride ?rows 1 workbuf)"
        and ok: "\<forall>r \<in> set ?rows. r * stride + stride \<le> length srcview"
        by (auto split: if_splits)
      then show ?thesis using assms(2) lr by (simp add: length_copy_rows)
    qed
    note H = HorizontalIX_eq [OF assms(3) lv assms(1)]
    show ?thesis
    proof (cases "HorizontalIX v rowbuf w h (interlace_table stride hrz_steps)")
      case hl: (Inl e)
      with H have "hrz_pass stride h 1 None v = Inl e"
        by (cases "hrz_pass stride h 1 None v") simp_all
      with hl Inr show ?thesis unfolding unfold tw by simp
    next
      case hr: (Inr x)
      obtain work rowbuf' where x: "x = (work, rowbuf')" by (cases x) auto
      with H hr have p: "hrz_pass stride h 1 None v = Inr work"
        "length work = h * (stride + 1)" "rowbuf_ok stride rowbuf'"
        by (cases "hrz_pass stride h 1 None v"; simp)+
      show ?thesis
        unfolding unfold tw using Inr hr x p
        by (cases "Encode work finalbuf") auto
    qed
  qed
qed

lemma MakeInterlaceTable_table:
  "MakeInterlaceTable sz steps = Some (Inr (interlace_table sz steps))"
  unfolding interlace_table_def by (rule MakeInterlaceTable_eq)

lemma Compress_trials_eq:
  assumes "stride = drop_bit 1 w"
  shows "set vrts \<subseteq> set steps \<Longrightarrow> \<forall>v \<in> set vrts. 0 < v \<Longrightarrow>
    length workbuf = h * (stride + 1) \<Longrightarrow> rowbuf_ok stride rowbuf \<Longrightarrow>
    length finalbuf = h * (stride + 1) * 8 div 7 \<Longrightarrow>
    Compress_trials srcview w h (interlace_table h steps) (interlace_table stride hrz_steps) vrts
      (workbuf, rowbuf, finalbuf) bestofs best =
    Compress_trials_fresh srcview w h (interlace_table h steps) (interlace_table stride hrz_steps)
      vrts bestofs best"
proof (induction vrts arbitrary: workbuf rowbuf finalbuf bestofs best)
  case Nil
  then show ?case by simp
next
  case (Cons vrt vrts)
  let ?vt = "interlace_table h steps"
  let ?ht = "interlace_table stride hrz_steps"
  let ?wb0 = "replicate ((drop_bit 1 w + 1) * h) (0::byte)"
  let ?fb0 = "replicate (length ?wb0 * 8 div 7) (0::byte)"
  let ?T = "trial_work srcview stride h vrt"
  have vrt: "0 < vrt" "vrt \<in> set steps" using Cons.prems(1,2) by simp_all
  obtain rb0 where rb0: "rowbuf_init (drop_bit 1 w) hrz_steps Map.empty = Inr rb0"
    "rowbuf_ok stride rb0"
    using rowbuf_init_ok [of stride] assms by auto
  have lwb0: "length ?wb0 = h * (stride + 1)"
    unfolding assms by (simp only: length_replicate mult.commute)
  have lfb0: "length ?fb0 = length finalbuf"
    by (simp only: length_replicate [of _ "0::byte"] lwb0 [simplified length_replicate] Cons.prems(5))
  note shared = Compress_trial_eq [OF assms Cons.prems(3,4) vrt, of srcview finalbuf]
  note fresh = Compress_trial_eq [OF assms lwb0 rb0(2) vrt, of srcview ?fb0]
  have fresh_unfold: "Compress_trials_fresh srcview w h ?vt ?ht (vrt # vrts) bestofs best =
      bindE (Compress_trial srcview w h ?vt ?ht vrt (?wb0, rb0, ?fb0))
        (\<lambda>(writeofs, workbuf', rowbuf', finalbuf').
           if writeofs > bestofs
           then Compress_trials_fresh srcview w h ?vt ?ht vrts writeofs
                  (Some (py_slice_from finalbuf' writeofs, vrt))
           else Compress_trials_fresh srcview w h ?vt ?ht vrts bestofs best)"
    by (simp only: Compress_trials_fresh.simps rb0(1) bindE_simps Let_def)
  show ?case
  proof (cases ?T)
    case (Inl e)
    with shared have "Compress_trial srcview w h ?vt ?ht vrt (workbuf, rowbuf, finalbuf) = Inl e"
      by (cases "Compress_trial srcview w h ?vt ?ht vrt (workbuf, rowbuf, finalbuf)") simp_all
    moreover from Inl fresh have "Compress_trial srcview w h ?vt ?ht vrt (?wb0, rb0, ?fb0) = Inl e"
      by (cases "Compress_trial srcview w h ?vt ?ht vrt (?wb0, rb0, ?fb0)") simp_all
    ultimately show ?thesis unfolding fresh_unfold by simp
  next
    case (Inr work)
    note E = Encode_agree [of finalbuf ?fb0 work, OF lfb0 [symmetric]]
    show ?thesis
    proof (cases "Encode work finalbuf")
      case el: (Inl e)
      with E have e0: "Encode work ?fb0 = Inl e" by (cases "Encode work ?fb0") simp_all
      from el Inr shared have "Compress_trial srcview w h ?vt ?ht vrt (workbuf, rowbuf, finalbuf) = Inl e"
        by (cases "Compress_trial srcview w h ?vt ?ht vrt (workbuf, rowbuf, finalbuf)") simp_all
      moreover from e0 Inr fresh have "Compress_trial srcview w h ?vt ?ht vrt (?wb0, rb0, ?fb0) = Inl e"
        by (cases "Compress_trial srcview w h ?vt ?ht vrt (?wb0, rb0, ?fb0)") simp_all
      ultimately show ?thesis unfolding fresh_unfold by simp
    next
      case er: (Inr x)
      obtain wo g1 where x: "x = (wo, g1)" by (cases x) auto
      from E er x obtain g2 where e0: "Encode work ?fb0 = Inr (wo, g2)"
        and ag: "agree_from (length finalbuf) wo g1 g2"
        by (cases "Encode work ?fb0") auto
      from er x Inr shared obtain wb' rb' where
        s: "Compress_trial srcview w h ?vt ?ht vrt (workbuf, rowbuf, finalbuf) = Inr (wo, wb', rb', g1)"
        and inv: "length wb' = h * (stride + 1)" "rowbuf_ok stride rb'"
        by (cases "Compress_trial srcview w h ?vt ?ht vrt (workbuf, rowbuf, finalbuf)") auto
      from e0 Inr fresh obtain wb0' rb0' where
        f: "Compress_trial srcview w h ?vt ?ht vrt (?wb0, rb0, ?fb0) = Inr (wo, wb0', rb0', g2)"
        by (cases "Compress_trial srcview w h ?vt ?ht vrt (?wb0, rb0, ?fb0)") auto
      have lg1: "length g1 = h * (stride + 1) * 8 div 7"
        using ag Cons.prems(5) by (simp add: agree_from_def)
      have sl: "py_slice_from g1 wo = py_slice_from g2 wo"
        by (rule py_slice_from_agree [OF ag])
      have IH: "Compress_trials srcview w h ?vt ?ht vrts (wb', rb', g1) bo bs =
          Compress_trials_fresh srcview w h ?vt ?ht vrts bo bs" for bo bs
        using Cons.prems(1,2) inv lg1 by (intro Cons.IH) simp_all
      show ?thesis
        unfolding fresh_unfold
        by (simp only: Compress_trials.simps s f bindE_simps prod.case IH sl)
    qed
  qed
qed

lemma Compress_unfold:
  "Compress srcbuf w h =
     Some (bindE (rowbuf_init (drop_bit 1 w) hrz_steps Map.empty) (\<lambda>rowbuf.
       bindE (Compress_trials srcbuf w h (interlace_table h [1, 2, 4])
                (interlace_table (drop_bit 1 w) hrz_steps) [2, 1, 4]
                (replicate ((drop_bit 1 w + 1) * h) 0, rowbuf,
                 replicate (length (replicate ((drop_bit 1 w + 1) * h) (0::byte)) * 8 div 7) 0)
                0 None)
         (\<lambda>best. case best of None \<Rightarrow> Inl UnboundLocalError | Some r \<Rightarrow> Inr r)))"
  by (simp only: Compress_def Let_def MakeInterlaceTable_table option.case sum.case)

lemma Compress_fresh_unfold:
  "Compress_fresh srcbuf w h =
     Some (bindE (Compress_trials_fresh srcbuf w h (interlace_table h [1, 2, 4])
                (interlace_table (drop_bit 1 w) hrz_steps) [2, 1, 4] 0 None)
         (\<lambda>best. case best of None \<Rightarrow> Inl UnboundLocalError | Some r \<Rightarrow> Inr r))"
  by (simp only: Compress_fresh_def Let_def MakeInterlaceTable_table option.case sum.case)

lemma rowbuf_init_fresh: "rowbuf_init stride hrz_steps Map.empty = Inr (fresh_rowbuf stride)"
proof -
  have "\<forall>s \<in> set hrz_steps. s < 256" by (simp add: set_hrz_steps)
  from rowbuf_init_eq [OF this, of stride Map.empty] show ?thesis
    by (simp add: fresh_rowbuf_def)
qed

lemma rowbuf_ok_fresh: "rowbuf_ok stride (fresh_rowbuf stride)"
  by (simp add: rowbuf_ok_def fresh_rowbuf_def)

lemma candidate_nth:
  assumes "0 < s" "x < length pl"
  shows "candidate s pl ! (interlace (length pl) s ! x + 1) =
     (if x = 0 then 0 else pl ! (interlace (length pl) s ! (x - 1))) XOR pl ! (interlace (length pl) s ! x)"
proof -
  let ?p = "interlace (length pl) s"
  have len: "length ?p = length pl" by (rule length_interlace [OF assms(1)])
  have "?p ! x \<in> set ?p" using assms(2) len by simp
  then have lt: "?p ! x < length pl" by (simp add: set_interlace [OF assms(1)])
  show ?thesis
    using delta_writes_nth [OF distinct_interlace [OF assms(1)], of x "length pl"
        "of_nat s # replicate (length pl) 0" pl 0] assms len lt
    by (simp add: candidate_def)
qed

section \<open>The claims\<close>

text \<open>
  Claim C9. For every domain size \<open>N\<close> and every step \<open>s \<ge> 1\<close> among the requested
  steps, MakeInterlaceTable returns (it neither raises nor loops) a table whose entry for
  \<open>s\<close> lists the indices \<open>0..N-1\<close> grouped by residue class \<open>r = 0..s-1\<close>, each
  class ascending by step \<open>s\<close>; the entry is a bijection of \<open>0..N-1\<close>; it is the
  identity for \<open>s = 1\<close> and for \<open>s \<ge> N\<close>; no entry is stored for step 0.
\<close>

theorem MakeInterlaceTable_bijection:
  assumes "1 \<le> s" and "s \<in> set steps"
  shows "\<exists>table p. MakeInterlaceTable N steps = Some (Inr table) \<and> table 0 = None \<and>
           table s = Some (map Some p) \<and>
           p = concat (map (\<lambda>r. map (\<lambda>k. r + k * s) [0..<(N + s - 1 - r) div s]) [0..<s]) \<and>
           length p = N \<and> bij_betw (\<lambda>x. p ! x) {0..<N} {0..<N} \<and>
           (s = 1 \<longrightarrow> p = [0..<N]) \<and> (N \<le> s \<longrightarrow> p = [0..<N])"
proof -
  let ?table = "\<lambda>s. if s \<in> set steps \<and> s \<noteq> 0 then Some (map Some (interlace N s)) else None"
  let ?p = "interlace N s"
  have pos: "0 < s" using assms(1) by simp
  have tab: "MakeInterlaceTable N steps = Some (Inr ?table)"
    by (rule MakeInterlaceTable_eq)
  have zero: "?table 0 = None" by simp
  have entry: "?table s = Some (map Some ?p)"
    using assms pos by simp
  have "map (residue_class N s) [0..<s] =
        map (\<lambda>r. map (\<lambda>k. r + k * s) [0..<(N + s - 1 - r) div s]) [0..<s]"
    by (intro map_cong) (simp_all add: residue_class_progression)
  then have form: "?p = concat (map (\<lambda>r. map (\<lambda>k. r + k * s) [0..<(N + s - 1 - r) div s]) [0..<s])"
    by (simp only: interlace_def)
  have len: "length ?p = N" by (rule length_interlace [OF pos])
  have bij: "bij_betw (\<lambda>x. ?p ! x) {0..<N} {0..<N}"
    using distinct_interlace [OF pos, of N] set_interlace [OF pos, of N] len
    by (intro bij_betw_nth) (auto simp: atLeast0LessThan)
  have one: "s = 1 \<longrightarrow> ?p = [0..<N]" using interlace_step_1 [of N] by simp
  have ge: "N \<le> s \<longrightarrow> ?p = [0..<N]" by (simp add: interlace_step_ge)
  from tab zero entry form len bij one ge show ?thesis by blast
qed

theorem MakeInterlaceTable_bijection_witness:
  "MakeInterlaceTable 5 [0, 1, 2, 4] \<noteq> None \<and>
   (\<exists>table. MakeInterlaceTable 5 [0, 1, 2, 4] = Some (Inr table) \<and> table 0 = None \<and>
      table 2 = Some (map Some [0, 2, 4, 1, 3]))"
proof -
  have h1: "1 \<le> (2::nat)" by simp
  have h2: "(2::nat) \<in> set [0, 1, 2, 4]" by simp
  have v: "concat (map (\<lambda>r. map (\<lambda>k. r + k * 2) [0..<(5 + 2 - 1 - r) div 2]) [0..<2]) =
      [0, 2, 4, 1, 3::nat]"
    by code_simp
  from MakeInterlaceTable_bijection [OF h1 h2, of 5] v show ?thesis
    by auto
qed

text \<open>
  Claim C3, as amended. For a WorkBuffer whose bytes are all zero, of any length \<open>L\<close>,
  Encode writes no literal and no flag B byte, but it does write one flag A byte (0x00)
  for every started group of 64 source bytes: with room for them in the destination, the
  offset returned is the destination's length minus \<open>ceil(L / 64)\<close>, and the bytes from
  that offset on are all zero. The output is empty only for \<open>L = 0\<close>.
\<close>

theorem Encode_all_zero:
  assumes "\<forall>b \<in> set workview. b = 0"
    and "(length workview + 63) div 64 \<le> length finalview"
  shows "Encode workview finalview =
     Inr (int (length finalview) - int ((length workview + 63) div 64),
          take (length finalview - (length workview + 63) div 64) finalview @
          replicate ((length workview + 63) div 64) 0)"
proof -
  let ?L = "length workview"
  let ?a = "if ((?L + 7) div 8) mod 8 = 0 then 8 else ((?L + 7) div 8) mod 8"
  let ?b = "if ?L mod 8 = 0 then 8 else ?L mod 8"
  have zeros: "\<forall>i<?L. workview ! i = 0" using assms(1) by simp
  have a: "1 \<le> ?a" "?a \<le> 8" by (simp_all add: Suc_leI less_imp_le)
  have b: "1 \<le> ?b" "?b \<le> 8" by (simp_all add: Suc_leI less_imp_le)
  have n: "flagA_count ?L ?a ?b = (?L + 63) div 64" by (rule flagA_count_initial)
  have "Encode workview finalview =
      Encode_loop workview ?L 0 0 (int (length finalview)) (int ?a) (int ?b) finalview"
    by (simp add: Encode_def Encode_counters Let_def)
  also have "\<dots> = Inr (int (length finalview - flagA_count ?L ?a ?b),
      take (length finalview - flagA_count ?L ?a ?b) finalview @
      replicate (flagA_count ?L ?a ?b) 0 @ drop (length finalview) finalview)"
    using assms(2) by (intro Encode_loop_zeros zeros a b) (simp_all only: n order_refl)
  finally show ?thesis
    using assms(2) by (simp add: n of_nat_diff)
qed

theorem Encode_all_zero_witness:
  "Encode (replicate 65 0) (replicate (65 * 8 div 7) 0) = Inr (72, replicate 74 0)"
proof -
  have h1: "\<forall>b \<in> set (replicate 65 (0::byte)). b = 0" by simp
  have h2: "(length (replicate 65 (0::byte)) + 63) div 64 \<le> length (replicate (65 * 8 div 7) (0::byte))"
    by simp
  have "take 72 (replicate 74 (0::byte)) @ replicate 2 0 = replicate 74 0"
    by (simp add: replicate_add [symmetric])
  with Encode_all_zero [OF h1 h2] show ?thesis by simp
qed

text \<open>
  The claim as stated fails for a single zero byte and the destination
  \<^verbatim>\<open>bytearray(1 * 8 // 7)\<close> that Compress allocates for it: one flag A byte is
  written and the offset is 0, not the length 1.
\<close>

theorem Encode_all_zero_counterexample:
  "Encode [0] (replicate (1 * 8 div 7) 0) = Inr (0, [0]) \<and>
   (0::int) \<noteq> int (length (replicate (1 * 8 div 7) (0::byte)))"
  by code_simp

text \<open>
  Claim C1 at a failing input. The row \<open>[0, 1, 2, 4, 8]\<close> (horizontal step 0 and the four
  plane bytes of the 8x1 image with pixels \<open>0 0 0 0 8 4 2 1\<close>) needs 4 literals, a flag B
  and a flag A byte, six bytes in all; the destination \<^verbatim>\<open>bytearray(5 * 8 // 7)\<close> has
  five. The flag A byte is stored at index -1, over the last literal, and the offset
  returned is -1.
\<close>

theorem Encode_overflows_destination:
  "Encode [0, 1, 2, 4, 8] (replicate (5 * 8 div 7) 0) = Inr (- 1, [0x78, 1, 2, 4, 0x80])"
  by code_simp

text \<open>
  Claim C10. Compress reuses \<open>workbuf\<close>, \<open>rowbuf\<close> and \<open>finalbuf\<close> across its three
  trials, yet it returns (it neither loops nor differs in the exception it raises) exactly
  what the reference \<open>Compress_fresh\<close> returns, which runs every trial on freshly
  allocated buffers: nothing a trial leaves in the buffers, stale leading bytes included,
  reaches a later trial's offset or output bytes.
\<close>

theorem Compress_buffer_reuse:
  "Compress srcbuf w h = Compress_fresh srcbuf w h \<and> Compress srcbuf w h \<noteq> None"
proof -
  let ?stride = "drop_bit 1 w"
  obtain rb0 where rb0: "rowbuf_init ?stride hrz_steps Map.empty = Inr rb0" "rowbuf_ok ?stride rb0"
    using rowbuf_init_ok [of ?stride] by auto
  have "Compress_trials srcbuf w h (interlace_table h [1, 2, 4])
          (interlace_table ?stride hrz_steps) [2, 1, 4]
          (replicate ((?stride + 1) * h) 0, rb0,
           replicate (length (replicate ((?stride + 1) * h) (0::byte)) * 8 div 7) 0) 0 None =
        Compress_trials_fresh srcbuf w h (interlace_table h [1, 2, 4])
          (interlace_table ?stride hrz_steps) [2, 1, 4] 0 None"
  proof (rule Compress_trials_eq [OF refl])
    show "set [2, 1, 4] \<subseteq> set [1, 2, 4::nat]" by simp
    show "\<forall>v \<in> set [2, 1, 4::nat]. 0 < v" by simp
    show "length (replicate ((?stride + 1) * h) (0::byte)) = h * (?stride + 1)"
      by (simp only: length_replicate mult.commute)
    show "rowbuf_ok ?stride rb0" by (rule rb0(2))
    show "length (replicate (length (replicate ((?stride + 1) * h) (0::byte)) * 8 div 7) (0::byte)) =
        h * (?stride + 1) * 8 div 7"
      by (simp only: length_replicate mult.commute [of h])
  qed
  then show ?thesis
    unfolding Compress_unfold Compress_fresh_unfold
    by (simp only: rb0(1) bindE_simps option.distinct simp_thms)
qed

text \<open>
  Claim C4, as amended. For every row and every horizontal step \<open>s\<close> in \<open>1..0x50\<close>, the
  candidate HorizontalIX builds has \<open>stride + 1\<close> bytes, its marker byte is \<open>s\<close>, and
  its payload is a delta along step \<open>s\<close>'s permutation \<open>p\<close> that leaves every byte at
  its own position: the byte at position \<open>p[x]\<close> is the row's byte there XORed with the
  row's unfiltered byte at \<open>p[x-1]\<close>, and the byte at \<open>p[0]\<close> is unfiltered.
\<close>

theorem HorizontalIX_candidate:
  assumes "MakeInterlaceTable stride hrz_steps = Some (Inr hrz_lookup)"
    and "rowbuf_ok stride rowbuf" "rowstart + stride \<le> length workview"
    and "1 \<le> s" "s \<le> 0x50"
  shows "\<exists>rowbuf' cand p.
     hrz_candidates workview rowstart stride hrz_lookup rowbuf = Inr rowbuf' \<and>
     rowbuf' s = Some cand \<and> hrz_lookup s = Some (map Some p) \<and>
     length cand = stride + 1 \<and> cand ! 0 = of_nat s \<and>
     (\<forall>x < stride. cand ! (p ! x + 1) =
        (if x = 0 then 0 else workview ! (rowstart + p ! (x - 1))) XOR workview ! (rowstart + p ! x))"
proof -
  let ?pl = "slice workview rowstart (rowstart + stride)"
  let ?p = "interlace stride s"
  let ?rb = "\<lambda>s. if s \<in> set hrz_steps then Some (candidate s ?pl) else rowbuf s"
  have tab: "hrz_lookup = interlace_table stride hrz_steps"
    using assms(1) by (simp add: MakeInterlaceTable_table)
  have s: "0 < s" "s \<in> set hrz_steps" using assms(4,5) by (simp_all add: set_hrz_steps)
  have lpl: "length ?pl = stride" using assms(3) by (simp add: length_slice)
  have c: "hrz_candidates workview rowstart stride hrz_lookup rowbuf = Inr ?rb"
    unfolding tab by (rule hrz_candidates_eq [OF assms(2,3) refl])
  have e: "?rb s = Some (candidate s ?pl)" using s by simp
  have l: "hrz_lookup s = Some (map Some ?p)" using s by (simp add: tab interlace_table_def)
  have m: "candidate s ?pl ! 0 = of_nat s" by simp
  have n: "length (candidate s ?pl) = stride + 1" by (simp add: lpl)
  have d: "\<forall>x < stride. candidate s ?pl ! (?p ! x + 1) =
        (if x = 0 then 0 else workview ! (rowstart + ?p ! (x - 1))) XOR workview ! (rowstart + ?p ! x)"
  proof (intro allI impI)
    fix x assume x: "x < stride"
    have in_range: "?p ! y < stride" if "y < stride" for y
    proof -
      have "?p ! y \<in> set ?p" using that length_interlace [OF s(1), of stride] by simp
      then show ?thesis by (simp add: set_interlace [OF s(1)])
    qed
    have nth: "?pl ! (?p ! y) = workview ! (rowstart + ?p ! y)" if "y < stride" for y
      using in_range [OF that] assms(3) by (intro slice_nth) simp_all
    have "candidate s ?pl ! (interlace (length ?pl) s ! x + 1) =
       (if x = 0 then 0 else ?pl ! (interlace (length ?pl) s ! (x - 1))) XOR
       ?pl ! (interlace (length ?pl) s ! x)"
      using x lpl by (intro candidate_nth [OF s(1)]) simp
    then show "candidate s ?pl ! (?p ! x + 1) =
        (if x = 0 then 0 else workview ! (rowstart + ?p ! (x - 1))) XOR workview ! (rowstart + ?p ! x)"
      unfolding lpl using x nth [of x] nth [of "x - 1"] by (cases "x = 0") simp_all
  qed
  from c e l m n d show ?thesis by blast
qed


theorem HorizontalIX_candidate_witness:
  "MakeInterlaceTable 4 hrz_steps = Some (Inr (interlace_table 4 hrz_steps)) \<and>
   rowbuf_ok 4 (fresh_rowbuf 4) \<and>
   (\<exists>rowbuf'. hrz_candidates [0, 1, 2, 4, 8] 1 4 (interlace_table 4 hrz_steps) (fresh_rowbuf 4) =
        Inr rowbuf' \<and> rowbuf' 2 = Some [2, 1, 6, 5, 10])"
proof -
  have h1: "MakeInterlaceTable 4 hrz_steps = Some (Inr (interlace_table 4 hrz_steps))"
    by (rule MakeInterlaceTable_table)
  have h2: "rowbuf_ok 4 (fresh_rowbuf 4)" by (rule rowbuf_ok_fresh)
  have h3: "1 + 4 \<le> length [0, 1, 2, 4, 8 :: byte]" by simp
  have h4: "1 \<le> (2::nat)" and h5: "(2::nat) \<le> 0x50" by simp_all
  have p2: "interlace 4 2 = [0, 2, 1, 3]" by code_simp
  have tab: "interlace_table 4 hrz_steps 2 = Some (map Some [0, 2, 1, 3])"
    by (simp add: interlace_table_def set_hrz_steps p2)
  from HorizontalIX_candidate [OF h1 h2 h3 h4 h5]
  obtain rowbuf' cand p where r:
    "hrz_candidates [0, 1, 2, 4, 8] 1 4 (interlace_table 4 hrz_steps) (fresh_rowbuf 4) = Inr rowbuf'"
    "rowbuf' 2 = Some cand" "interlace_table 4 hrz_steps 2 = Some (map Some p)"
    "length cand = 4 + 1" "cand ! 0 = of_nat 2"
    "\<forall>x < 4. cand ! (p ! x + 1) =
       (if x = 0 then 0 else [0, 1, 2, 4, 8 :: byte] ! (1 + p ! (x - 1))) XOR
       [0, 1, 2, 4, 8] ! (1 + p ! x)"
    by blast
  from r(3) tab have "map Some p = map Some [0, 2, 1, 3]" by simp
  then have p: "p = [0, 2, 1, 3]" by (simp only: inj_map_eq_map [OF inj_Some])
  from r(6) have "cand ! (p ! 0 + 1) = [0, 1, 2, 4, 8 :: byte] ! (1 + p ! 0)"
    "cand ! (p ! 1 + 1) = [0, 1, 2, 4, 8 :: byte] ! (1 + p ! 0) XOR [0, 1, 2, 4, 8] ! (1 + p ! 1)"
    "cand ! (p ! 2 + 1) = [0, 1, 2, 4, 8 :: byte] ! (1 + p ! 1) XOR [0, 1, 2, 4, 8] ! (1 + p ! 2)"
    "cand ! (p ! 3 + 1) = [0, 1, 2, 4, 8 :: byte] ! (1 + p ! 2) XOR [0, 1, 2, 4, 8] ! (1 + p ! 3)"
    by (auto dest: spec [of _ 0] spec [of _ 1] spec [of _ 2] spec [of _ 3])
  then have v: "cand ! 1 = 1" "cand ! 3 = 5" "cand ! 2 = 6" "cand ! 4 = 10"
    unfolding p by (simp_all add: eval_nat_numeral)
  obtain a b c d e where cand: "cand = [a, b, c, d, e]"
    using r(4) by (auto simp: length_Suc_conv eval_nat_numeral)
  with v r(5) have "cand = [2, 1, 6, 5, 10]" by (simp add: eval_nat_numeral)
  with h1 h2 r(1,2) show ?thesis by blast
qed

text \<open>
  The claim as stated fails already for step 1, whose permutation is the identity: for
  the payload \<open>1, 2, 4, 8\<close> the code stores \<open>1, 1 XOR 2, 2 XOR 4, 4 XOR 8\<close>, each byte
  XORed with the unfiltered byte before it, where the specification's filter XORs with
  the previous filtered value and gives \<open>1, 3, 7, 15\<close>.
\<close>

theorem HorizontalIX_candidate_counterexample:
  "interlace_table 4 hrz_steps 1 = Some (map Some [0, 1, 2, 3]) \<and>
   (case hrz_candidates [0, 1, 2, 4, 8] 1 4 (interlace_table 4 hrz_steps) (fresh_rowbuf 4)
    of Inl e \<Rightarrow> None | Inr rowbuf' \<Rightarrow> rowbuf' 1) = Some [1, 1, 3, 6, 12] \<and>
   spec_RowCandidate 1 [0, 1, 2, 3] [1, 2, 4, 8] = [1, 1, 3, 7, 15]"
proof -
  have p1: "interlace 4 1 = [0, 1, 2, 3]" by code_simp
  then have p1': "interlace 4 (Suc 0) = [0, 1, 2, 3]" by simp
  have tab: "interlace_table 4 hrz_steps 1 = Some (map Some [0, 1, 2, 3])"
    by (simp add: interlace_table_def set_hrz_steps p1')
  have pl: "slice [0, 1, 2, 4, 8 :: byte] 1 (1 + 4) = [1, 2, 4, 8]" by (simp add: slice_def)
  have c: "hrz_candidates [0, 1, 2, 4, 8] 1 4 (interlace_table 4 hrz_steps) (fresh_rowbuf 4) =
      Inr (\<lambda>s. if s \<in> set hrz_steps then Some (candidate s [1, 2, 4, 8]) else fresh_rowbuf 4 s)"
    using hrz_candidates_eq [OF rowbuf_ok_fresh, of 1 4 "[0, 1, 2, 4, 8]" "[1, 2, 4, 8]"] pl by simp
  have v: "candidate 1 [1, 2, 4, 8] = [1, 1, 3, 6, 12]"
    by code_simp
  have s: "spec_RowCandidate 1 [0, 1, 2, 3] [1, 2, 4, 8] = [1, 1, 3, 7, 15]"
    by (simp add: spec_RowCandidate_def)
  from tab c v s show ?thesis by (simp add: set_hrz_steps)
qed

text \<open>
  Claim C8. For one row of HorizontalIX (lines 75-113), with the tables of
  MakeInterlaceTable, a \<open>rowbuf\<close> as Compress builds it and a stride within the range
  the width check of lines 203-205 allows (\<open>8 * (stride + 1) < 0xFFFF\<close>, so that step 0
  always beats the initial \<open>bestbits\<close>): the row does not raise; the step \<open>best\<close> it
  leaves in \<open>besthrz\<close> is one of 0..0x50, whatever \<open>besthrz\<close> held before; the estimate of
  its candidate is at most the estimate of every candidate of 0..0x50 and strictly below
  the estimate of every lower-numbered step, so that among equal estimates the lowest
  step wins; and the row's marker and payload in the work buffer, and nothing else, are
  replaced by that candidate, whose marker is \<open>best\<close>.
\<close>

theorem HorizontalIX_keeps_cheapest:
  assumes "MakeInterlaceTable stride hrz_steps = Some (Inr hrz_lookup)"
    and "rowbuf_ok stride rowbuf"
    and "1 \<le> rowstart" and "rowstart + stride \<le> length workview"
    and "8 * (int stride + 1) < 0xFFFF"
  shows "\<exists>workview' rowbuf' best c bits.
     hrz_candidates workview rowstart stride hrz_lookup rowbuf = Inr rowbuf' \<and>
     HorizontalIX_row workview rowbuf stride hrz_lookup rowstart besthrz =
       Inr (workview', rowbuf', Some best) \<and>
     best \<le> 0x50 \<and> rowbuf' best = Some c \<and> row_bits stride rowstart c = Inr bits \<and>
     (\<forall>s \<le> 0x50. \<exists>cs bs. rowbuf' s = Some cs \<and> row_bits stride rowstart cs = Inr bs \<and>
         bits \<le> bs \<and> (s < best \<longrightarrow> bits < bs)) \<and>
     workview' = take (rowstart - 1) workview @ c @ drop (rowstart + stride) workview \<and>
     length workview' = length workview \<and> length c = stride + 1 \<and> c ! 0 = of_nat best"
proof -
  define pl where "pl = slice workview rowstart (rowstart + stride)"
  have tab: "hrz_lookup = interlace_table stride hrz_steps"
    using assms(1) MakeInterlaceTable_table [of stride] by simp
  have lpl: "length pl = stride" using assms(4) by (simp add: pl_def length_slice)
  let ?rb = "\<lambda>s. if s \<in> set hrz_steps then Some (candidate s pl) else rowbuf s"
  let ?sel = "select_best (map (\<lambda>s. (s, cost rowstart (candidate s pl))) hrz_steps) 0xFFFF besthrz"
  have cands: "hrz_candidates workview rowstart stride hrz_lookup rowbuf = Inr ?rb"
    unfolding tab by (rule hrz_candidates_eq [OF assms(2,4) pl_def])
  have sel: "hrz_select ?rb stride rowstart hrz_steps 0xFFFF besthrz = Inr ?sel"
    by (rule hrz_select_eq) (simp add: lpl)
  from assms(5) lpl have "8 * (int (length pl) + 1) < 0xFFFF" by simp
  from best_step_spec [OF this, of rowstart besthrz] obtain best where best: "best < 81"
    "best_step rowstart pl besthrz = Some best"
    "\<forall>s < 81. cost rowstart (candidate best pl) \<le> cost rowstart (candidate s pl)"
    "\<forall>s < best. cost rowstart (candidate best pl) < cost rowstart (candidate s pl)"
    by blast
  obtain bb where bb: "?sel = (bb, Some best)"
    using best(2) by (cases ?sel) (simp add: best_step_def)
  have inset: "best \<in> set hrz_steps" using best(1) by (simp add: set_hrz_steps)
  let ?w = "take (rowstart - 1) workview @ candidate best pl @ drop (rowstart + stride) workview"
  have "length (slice workview (rowstart - 1) (rowstart + stride)) = length (candidate best pl)"
    using assms(3,4) lpl by (simp add: length_slice)
  then have wr: "mv_set_slice workview (rowstart - 1) (rowstart + stride) (candidate best pl) = Inr ?w"
    by (simp add: mv_set_slice_def)
  have row: "HorizontalIX_row workview rowbuf stride hrz_lookup rowstart besthrz =
      Inr (?w, ?rb, Some best)"
    unfolding HorizontalIX_row_def cands using wr by (simp add: sel bb inset)
  have b50: "best \<le> 0x50" using best(1) by simp
  have rbb: "?rb best = Some (candidate best pl)" using inset by simp
  have bits: "row_bits stride rowstart (candidate s pl) = Inr (cost rowstart (candidate s pl))" for s
    by (rule row_bits_eq) (simp add: lpl)
  have all: "\<forall>s \<le> 0x50. \<exists>cs bs. ?rb s = Some cs \<and> row_bits stride rowstart cs = Inr bs \<and>
        cost rowstart (candidate best pl) \<le> bs \<and> (s < best \<longrightarrow> cost rowstart (candidate best pl) < bs)"
  proof (intro allI impI)
    fix s :: nat assume "s \<le> 0x50"
    then have s: "s < 81" by simp
    then have "?rb s = Some (candidate s pl)" by (simp add: set_hrz_steps)
    moreover note bits [of s]
    moreover have "cost rowstart (candidate best pl) \<le> cost rowstart (candidate s pl)"
      using best(3) s by blast
    moreover have "s < best \<longrightarrow> cost rowstart (candidate best pl) < cost rowstart (candidate s pl)"
      using best(4) by blast
    ultimately show "\<exists>cs bs. ?rb s = Some cs \<and> row_bits stride rowstart cs = Inr bs \<and>
        cost rowstart (candidate best pl) \<le> bs \<and> (s < best \<longrightarrow> cost rowstart (candidate best pl) < bs)"
      by blast
  qed
  have len: "length ?w = length workview" using assms(3,4) lpl by simp
  have lc: "length (candidate best pl) = stride + 1" by (simp add: lpl)
  have mk: "candidate best pl ! 0 = of_nat best" by simp
  show ?thesis
    using cands row b50 rbb bits [of best] all len lc mk by blast
qed

theorem HorizontalIX_keeps_cheapest_witness:
  "MakeInterlaceTable 4 hrz_steps = Some (Inr (interlace_table 4 hrz_steps)) \<and>
   rowbuf_ok 4 (fresh_rowbuf 4) \<and>
   (\<exists>workview' rowbuf' best c.
      HorizontalIX_row [0, 1, 2, 4, 8] (fresh_rowbuf 4) 4 (interlace_table 4 hrz_steps) 1 None =
        Inr (workview', rowbuf', Some best) \<and>
      best \<le> 0x50 \<and> rowbuf' best = Some c \<and> workview' = c \<and> length c = 5)"
proof -
  have h1: "MakeInterlaceTable 4 hrz_steps = Some (Inr (interlace_table 4 hrz_steps))"
    by (rule MakeInterlaceTable_table)
  have h2: "rowbuf_ok 4 (fresh_rowbuf 4)" by (rule rowbuf_ok_fresh)
  have h3: "1 \<le> (1::nat)" by simp
  have h4: "1 + 4 \<le> length [0, 1, 2, 4, 8 :: byte]" by simp
  have h5: "8 * (int 4 + 1) < 0xFFFF" by simp
  from HorizontalIX_keeps_cheapest [OF h1 h2 h3 h4 h5, of None]
  obtain workview' rowbuf' best c where r:
    "HorizontalIX_row [0, 1, 2, 4, 8] (fresh_rowbuf 4) 4 (interlace_table 4 hrz_steps) 1 None =
       Inr (workview', rowbuf', Some best)"
    "best \<le> 0x50" "rowbuf' best = Some c"
    "workview' = take (1 - 1) [0, 1, 2, 4, 8] @ c @ drop (1 + 4) [0, 1, 2, 4, 8]"
    "length c = 4 + 1"
    by blast
  from r(4) have "workview' = c" by simp
  with h1 h2 r show ?thesis by auto
qed

end
